theory Spec2Isabelle
  imports Complex_Main "HOL-Library.AList" "HOL-Library.Sublist" "HOL-Library.Multiset"
begin

section \<open>Python values and dictionaries\<close>

text \<open>
  The program is Python: posts are dictionaries with string keys, and the values that the
  language-model oracles hand back are whatever \<^verbatim>\<open>json.loads\<close> produced. A value is
  therefore \<^verbatim>\<open>None\<close>, a bool, an int, a float, a string, a list or a dictionary. A
  float is kept as the rational it denotes (every finite double is one); the two IEEE
  specials \<^verbatim>\<open>NaN\<close> and \<^verbatim>\<open>Infinity\<close> are not represented. A dictionary is an
  association list in insertion order, read with \<open>map_of\<close> and written with
  \<open>AList.update\<close>, which overwrites in place or appends as a Python dict does.

  A Python string is kept as a \<open>string\<close>: the chars of an ASCII string are its
  characters, and text beyond ASCII is kept in a fixed encoding that leaves ASCII alone
  (its UTF-8 bytes, say). Equality and the substring test are the same on the encoding as
  on the text. What Python takes from the Unicode tables is not computed here but supplied
  from outside: \<^verbatim>\<open>str.lower\<close>, and the split of a string into its characters where the
  keyword refiner iterates over one. A slice counts chars, and the scorer's iteration over
  a string yields one item per char, as Python does on ASCII text.
\<close>

datatype pyval =
    PNone
  | PBool bool
  | PInt int
  | PFloat rat
  | PStr string
  | PList "pyval list"
  | PDict "(string \<times> pyval) list"

type_synonym pydict = "(string \<times> pyval) list"

type_synonym post = pydict

datatype error = TypeError | AttributeError | KeyError

text \<open>\<^verbatim>\<open>d.get(k, dflt)\<close>\<close>

definition dict_get :: "pydict \<Rightarrow> string \<Rightarrow> pyval \<Rightarrow> pyval" where
  "dict_get d k dflt = (case map_of d k of None \<Rightarrow> dflt | Some v \<Rightarrow> v)"

text \<open>\<^verbatim>\<open>d.update(new)\<close>: the entries of \<open>new\<close> are written into \<open>d\<close> one after the other.\<close>

definition dict_update :: "pydict \<Rightarrow> pydict \<Rightarrow> pydict" where
  "dict_update d new = fold (\<lambda>(k, v) acc. AList.update k v acc) new d"

text \<open>The number a bool, int or float stands for in a comparison; nothing else is a number.\<close>

fun num_of :: "pyval \<Rightarrow> rat option" where
  "num_of (PBool b) = Some (if b then 1 else 0)"
| "num_of (PInt i) = Some (of_int i)"
| "num_of (PFloat r) = Some r"
| "num_of _ = None"

text \<open>\<^verbatim>\<open>v >= n\<close> for an int \<open>n\<close>: a \<^verbatim>\<open>TypeError\<close> unless \<open>v\<close> is a number.\<close>

definition py_ge :: "pyval \<Rightarrow> int \<Rightarrow> error + bool" where
  "py_ge v n = (case num_of v of None \<Rightarrow> Inl TypeError | Some r \<Rightarrow> Inr (of_int n \<le> r))"

text \<open>
  \<^verbatim>\<open>x[:n]\<close> for a constant \<open>n \<ge> 0\<close>: strings and lists can be sliced, anything else that
  JSON or the scrapers produce raises (reported here as \<^verbatim>\<open>TypeError\<close> throughout).
\<close>

fun py_slice :: "nat \<Rightarrow> pyval \<Rightarrow> error + pyval" where
  "py_slice n (PStr s) = Inr (PStr (take n s))"
| "py_slice n (PList xs) = Inr (PList (take n xs))"
| "py_slice n _ = Inl TypeError"

text \<open>
  Keys of a dict and members of a set: lists and dicts are unhashable; \<^verbatim>\<open>True\<close>,
  \<^verbatim>\<open>1\<close> and \<^verbatim>\<open>1.0\<close> compare equal and hash alike, so they are one key. The model
  stores the canonical representative of a key.
\<close>

fun hash_key :: "pyval \<Rightarrow> error + pyval" where
  "hash_key (PList xs) = Inl TypeError"
| "hash_key (PDict d) = Inl TypeError"
| "hash_key (PBool b) = Inr (PInt (if b then 1 else 0))"
| "hash_key (PFloat r) = Inr (if of_int \<lfloor>r\<rfloor> = r then PInt \<lfloor>r\<rfloor> else PFloat r)"
| "hash_key v = Inr v"

text \<open>\<^verbatim>\<open>for item in v\<close>: a list yields its elements, a string its characters, a dict its keys.\<close>

fun py_iter :: "pyval \<Rightarrow> error + pyval list" where
  "py_iter (PList xs) = Inr xs"
| "py_iter (PStr s) = Inr (map (\<lambda>c. PStr [c]) s)"
| "py_iter (PDict d) = Inr (map (\<lambda>kv. PStr (fst kv)) d)"
| "py_iter _ = Inl TypeError"

section \<open>outreach.py: the outreach classifier\<close>

definition DM_MIN_SCORE :: int where "DM_MIN_SCORE = 80"
definition COMMENT_MIN_SCORE :: int where "COMMENT_MIN_SCORE = 70"
definition CONTENT_NOTE_MIN_SCORE :: int where "CONTENT_NOTE_MIN_SCORE = 60"

text \<open>
  \<^verbatim>\<open>classify_outreach_action(post)\<close>. Python's \<^verbatim>\<open>and\<close> evaluates the score comparison
  first, so a score that is not a number raises at the first test; comparing the action
  with a string literal never raises.
\<close>

definition classify_outreach_action :: "post \<Rightarrow> error + string option" where
  "classify_outreach_action post =
     (let score = dict_get post ''intent_score'' (PInt 0);
          action = dict_get post ''recommended_action'' (PStr '''')
      in case py_ge score DM_MIN_SCORE of
           Inl e \<Rightarrow> Inl e
         | Inr c1 \<Rightarrow>
             if c1 \<and> action = PStr ''DM'' then Inr (Some ''dm'')
             else (case py_ge score COMMENT_MIN_SCORE of
                     Inl e \<Rightarrow> Inl e
                   | Inr c2 \<Rightarrow>
                       if c2 \<and> action = PStr ''comment'' then Inr (Some ''comment'')
                       else (case py_ge score CONTENT_NOTE_MIN_SCORE of
                               Inl e \<Rightarrow> Inl e
                             | Inr c3 \<Rightarrow>
                                 if c3 \<and> action = PStr ''content''
                                 then Inr (Some ''content_idea'')
                                 else Inr None)))"

text \<open>The table of the specification, section 4.5, over an integer score and an action string.\<close>

definition classify :: "int \<Rightarrow> string \<Rightarrow> string option" where
  "classify score action =
     (if score \<ge> 80 \<and> action = ''DM'' then Some ''dm''
      else if score \<ge> 70 \<and> action = ''comment'' then Some ''comment''
      else if score \<ge> 60 \<and> action = ''content'' then Some ''content_idea''
      else None)"

section \<open>scorer.py: the intent scorer\<close>

text \<open>
  One attempt at the scoring oracle either raises inside the \<^verbatim>\<open>try\<close> (malformed JSON, or
  any other exception of the API call) or yields the value \<^verbatim>\<open>json.loads\<close> parsed. The
  oracle is indexed by the batch and the attempt, so that it may answer every call
  differently.
\<close>

datatype attempt = JSONDecodeError | APIError | Parsed pyval

type_synonym score_oracle = "nat \<Rightarrow> nat \<Rightarrow> attempt"

definition batch_size :: nat where "batch_size = 5"

definition scoring_fields :: "string list" where
  "scoring_fields = [''topic_label'', ''intent_score'', ''recommended_action'',
                     ''suggested_response'', ''why_this_matters'']"

text \<open>
  \<^verbatim>\<open>_build_user_message(batch)\<close>: the item list that is serialised for the oracle. It runs
  outside the \<^verbatim>\<open>try\<close>, and slicing the snippet is the one step of it that can raise.
\<close>

fun build_items :: "nat \<Rightarrow> post list \<Rightarrow> error + pyval list" where
  "build_items i [] = Inr []"
| "build_items i (post # rest) =
     (case py_slice 300 (dict_get post ''snippet'' (PStr '''')) of
        Inl e \<Rightarrow> Inl e
      | Inr snippet \<Rightarrow>
          (case build_items (Suc i) rest of
             Inl e \<Rightarrow> Inl e
           | Inr items \<Rightarrow>
               Inr (PDict [(''id'', PInt (int i)),
                           (''source'', dict_get post ''source'' (PStr '''')),
                           (''title'', dict_get post ''title'' (PStr '''')),
                           (''snippet'', snippet)] # items)))"

definition build_user_message :: "post list \<Rightarrow> error + pyval list" where
  "build_user_message batch = build_items 0 batch"

text \<open>
  \<^verbatim>\<open>for attempt in range(3)\<close>: \<open>result\<close> starts as \<^verbatim>\<open>None\<close>, the first attempt that
  parses sets it and leaves the loop.
\<close>

fun call_with_retries :: "(nat \<Rightarrow> attempt) \<Rightarrow> nat list \<Rightarrow> pyval" where
  "call_with_retries call [] = PNone"
| "call_with_retries call (a # as) =
     (case call a of Parsed v \<Rightarrow> v | _ \<Rightarrow> call_with_retries call as)"

definition fallback_fields :: pydict where
  "fallback_fields =
     [(''topic_label'', PStr ''general_education''),
      (''intent_score'', PInt 0),
      (''recommended_action'', PStr ''content''),
      (''suggested_response'', PStr ''''),
      (''why_this_matters'', PStr ''Scoring failed'')]"

text \<open>\<^verbatim>\<open>"id" in item\<close>: key of a dict, substring of a string, element of a list.\<close>

fun contains_id :: "pyval \<Rightarrow> error + bool" where
  "contains_id (PDict d) = Inr (map_of d ''id'' \<noteq> None)"
| "contains_id (PStr s) = Inr (sublist ''id'' s)"
| "contains_id (PList xs) = Inr (PStr ''id'' \<in> set xs)"
| "contains_id _ = Inl TypeError"

text \<open>\<^verbatim>\<open>all("id" in item for item in result)\<close> stops at the first item without one.\<close>

fun all_contain_id :: "pyval list \<Rightarrow> error + bool" where
  "all_contain_id [] = Inr True"
| "all_contain_id (item # items) =
     (case contains_id item of
        Inl e \<Rightarrow> Inl e
      | Inr b \<Rightarrow> if b then all_contain_id items else Inr False)"

text \<open>\<^verbatim>\<open>item["id"]\<close>\<close>

fun getitem_id :: "pyval \<Rightarrow> error + pyval" where
  "getitem_id (PDict d) = (case map_of d ''id'' of None \<Rightarrow> Inl KeyError | Some v \<Rightarrow> Inr v)"
| "getitem_id _ = Inl TypeError"

text \<open>\<^verbatim>\<open>{item["id"]: item for item in result}\<close>, a later item replacing an earlier one of the same id.\<close>

fun id_score_map :: "pyval list \<Rightarrow> (pyval \<times> pyval) list \<Rightarrow> error + (pyval \<times> pyval) list" where
  "id_score_map [] m = Inr m"
| "id_score_map (item # items) m =
     (case getitem_id item of
        Inl e \<Rightarrow> Inl e
      | Inr k \<Rightarrow>
          (case hash_key k of
             Inl e \<Rightarrow> Inl e
           | Inr hk \<Rightarrow> id_score_map items (AList.update hk item m)))"

text \<open>\<^verbatim>\<open>{i: item for i, item in enumerate(result)}\<close>\<close>

definition enumerate_score_map :: "pyval list \<Rightarrow> (pyval \<times> pyval) list" where
  "enumerate_score_map items = zip (map (\<lambda>i. PInt (int i)) [0..<length items]) items"

text \<open>
  The five values written into a post from \<open>info\<close>; \<^verbatim>\<open>info.get\<close> exists on a dict only,
  on anything else it is an \<^verbatim>\<open>AttributeError\<close>.
\<close>

fun info_fields :: "pyval \<Rightarrow> error + pydict" where
  "info_fields (PDict info) =
     Inr [(''topic_label'', dict_get info ''topic_label'' (PStr ''general_education'')),
          (''intent_score'', dict_get info ''intent_score'' (PInt 0)),
          (''recommended_action'', dict_get info ''recommended_action'' (PStr ''content'')),
          (''suggested_response'', dict_get info ''suggested_response'' (PStr '''')),
          (''why_this_matters'', dict_get info ''why_this_matters'' (PStr ''''))]"
| "info_fields _ = Inl AttributeError"

text \<open>\<^verbatim>\<open>for i, post in enumerate(batch): info = score_map.get(i, {}); post.update(...)\<close>\<close>

fun merge_scores :: "(pyval \<times> pyval) list \<Rightarrow> nat \<Rightarrow> post list \<Rightarrow> error + post list" where
  "merge_scores score_map i [] = Inr []"
| "merge_scores score_map i (post # rest) =
     (case info_fields (case map_of score_map (PInt (int i)) of
                          None \<Rightarrow> PDict [] | Some info \<Rightarrow> info) of
        Inl e \<Rightarrow> Inl e
      | Inr fields \<Rightarrow>
          (case merge_scores score_map (Suc i) rest of
             Inl e \<Rightarrow> Inl e
           | Inr scored \<Rightarrow> Inr (dict_update post fields # scored)))"

text \<open>The body of the batch loop of \<^verbatim>\<open>score_opportunities\<close>: the posts it appends to \<open>scored\<close>.\<close>

definition score_batch :: "(nat \<Rightarrow> attempt) \<Rightarrow> post list \<Rightarrow> error + post list" where
  "score_batch call batch =
     (case build_user_message batch of
        Inl e \<Rightarrow> Inl e
      | Inr user_msg \<Rightarrow>
          (let result = call_with_retries call [0..<3] in
           if result = PNone
           then Inr (map (\<lambda>post. dict_update post fallback_fields) batch)
           else
             (case py_iter result of
                Inl e \<Rightarrow> Inl e
              | Inr items \<Rightarrow>
                  (case all_contain_id items of
                     Inl e \<Rightarrow> Inl e
                   | Inr has_ids \<Rightarrow>
                       (case (if has_ids then id_score_map items []
                              else Inr (enumerate_score_map items)) of
                          Inl e \<Rightarrow> Inl e
                        | Inr score_map \<Rightarrow> merge_scores score_map 0 batch)))))"

text \<open>\<^verbatim>\<open>for start in range(0, len(posts), batch_size)\<close>\<close>

function score_loop :: "score_oracle \<Rightarrow> post list \<Rightarrow> nat \<Rightarrow> post list \<Rightarrow> error + post list" where
  "score_loop oracle posts start scored =
     (if start < length posts
      then (case score_batch (oracle (start div batch_size))
                   (take batch_size (drop start posts)) of
              Inl e \<Rightarrow> Inl e
            | Inr new \<Rightarrow> score_loop oracle posts (start + batch_size) (scored @ new))
      else Inr scored)"
  by pat_completeness auto
termination
  by (relation "measure (\<lambda>(oracle, posts, start, scored). length posts - start)")
     (auto simp: batch_size_def)

definition score_opportunities :: "score_oracle \<Rightarrow> post list \<Rightarrow> error + post list" where
  "score_opportunities oracle posts =
     (if posts = [] then Inr [] else score_loop oracle posts 0 [])"

section \<open>scorer.py: the keyword refiner\<close>

text \<open>
  The single call of the refinement oracle: an exception anywhere inside the \<^verbatim>\<open>try\<close>,
  or the value \<^verbatim>\<open>json.loads\<close> parsed.
\<close>

datatype refine_reply = RefineFailed | RefineParsed pyval

text \<open>
  What \<^verbatim>\<open>str.lower\<close> does to a string of ASCII characters: it folds \<open>A\<close> to \<open>Z\<close>.
  Beyond ASCII the function is given by the Unicode tables; the refiner takes it as the
  parameter \<open>lower\<close>, as it takes the split of a string into characters, \<open>chars\<close>.
\<close>

definition char_lower :: "char \<Rightarrow> char" where
  "char_lower c =
     (let n = (of_char c :: nat) in if 65 \<le> n \<and> n \<le> 90 then char_of (n + 32) else c)"

definition ascii_lower :: "string \<Rightarrow> string" where
  "ascii_lower s = map char_lower s"

text \<open>\<^verbatim>\<open>for k in new_keywords\<close>: the elements of a list, the characters of a string, the keys of a dict.\<close>

fun iter_keywords :: "(string \<Rightarrow> string list) \<Rightarrow> pyval \<Rightarrow> error + pyval list" where
  "iter_keywords chars (PList xs) = Inr xs"
| "iter_keywords chars (PStr s) = Inr (map PStr (chars s))"
| "iter_keywords chars (PDict d) = Inr (map (\<lambda>kv. PStr (fst kv)) d)"
| "iter_keywords chars v = Inl TypeError"

text \<open>
  \<^verbatim>\<open>[k for k in new_keywords if k.lower() not in original_lower]\<close>; \<^verbatim>\<open>k.lower()\<close> is an
  \<^verbatim>\<open>AttributeError\<close> on anything but a string.
\<close>

fun filter_keywords ::
    "(string \<Rightarrow> string) \<Rightarrow> string set \<Rightarrow> pyval list \<Rightarrow> error + string list" where
  "filter_keywords lower original_lower [] = Inr []"
| "filter_keywords lower original_lower (PStr k # ks) =
     (case filter_keywords lower original_lower ks of
        Inl e \<Rightarrow> Inl e
      | Inr rest \<Rightarrow> Inr (if lower k \<notin> original_lower then k # rest else rest))"
| "filter_keywords lower original_lower (v # ks) = Inl AttributeError"

text \<open>The post summaries are built before the \<^verbatim>\<open>try\<close>; slicing the title can raise.\<close>

fun post_summaries :: "post list \<Rightarrow> error + pyval list" where
  "post_summaries [] = Inr []"
| "post_summaries (p # ps) =
     (case py_slice 100 (dict_get p ''title'' (PStr '''')) of
        Inl e \<Rightarrow> Inl e
      | Inr title \<Rightarrow>
          (case post_summaries ps of
             Inl e \<Rightarrow> Inl e
           | Inr rest \<Rightarrow>
               Inr (PDict [(''title'', title),
                           (''topic'', dict_get p ''topic_label'' (PStr '''')),
                           (''score'', dict_get p ''intent_score'' (PInt 0))] # rest)))"

definition generate_refined_keywords ::
    "(string \<Rightarrow> string) \<Rightarrow> (string \<Rightarrow> string list) \<Rightarrow>
     string list \<Rightarrow> post list \<Rightarrow> refine_reply \<Rightarrow> error + string list" where
  "generate_refined_keywords lower chars original_keywords high_scoring_posts reply =
     (case post_summaries (take 10 high_scoring_posts) of
        Inl e \<Rightarrow> Inl e
      | Inr summaries \<Rightarrow>
          (case reply of
             RefineFailed \<Rightarrow> Inr []
           | RefineParsed new_keywords \<Rightarrow>
               (case iter_keywords chars new_keywords of
                  Inl e \<Rightarrow> Inr []
                | Inr ks \<Rightarrow>
                    (case filter_keywords lower (set (map lower original_keywords)) ks of
                       Inl e \<Rightarrow> Inr []
                     | Inr kept \<Rightarrow> Inr kept))))"

section \<open>scrapers: how posts are created\<close>

text \<open>
  What the Reddit client hands to \<^verbatim>\<open>_submission_to_dict\<close>, and what \<^verbatim>\<open>_search\<close>
  returns for one DuckDuckGo result.
\<close>

record submission =
  sub_permalink :: string
  sub_title :: string
  sub_selftext :: "string option"
  sub_subreddit :: string
  sub_score :: int
  sub_num_comments :: int
  sub_created_utc :: rat
  sub_author :: string

record web_item =
  item_url :: string
  item_title :: string
  item_snippet :: string

definition submission_to_dict :: "submission \<Rightarrow> post" where
  "submission_to_dict s =
     [(''source'', PStr ''reddit''),
      (''url'', PStr (''https://reddit.com'' @ sub_permalink s)),
      (''title'', PStr (sub_title s)),
      (''snippet'', PStr (take 500 (case sub_selftext s of None \<Rightarrow> '''' | Some t \<Rightarrow> t))),
      (''subreddit'', PStr (sub_subreddit s)),
      (''score'', PInt (sub_score s)),
      (''num_comments'', PInt (sub_num_comments s)),
      (''created_utc'', PFloat (sub_created_utc s)),
      (''author'', PStr (sub_author s))]"

definition classify_source :: "string \<Rightarrow> string" where
  "classify_source url =
     (if sublist ''twitter.com'' url \<or> sublist ''x.com'' url then ''twitter''
      else if sublist ''quora.com'' url then ''quora''
      else if sublist ''reddit.com'' url then ''reddit''
      else ''web'')"

text \<open>The dict literal that \<^verbatim>\<open>scrape_web\<close> appends for an item.\<close>

definition web_post :: "web_item \<Rightarrow> post" where
  "web_post item =
     [(''source'', PStr (classify_source (item_url item))),
      (''url'', PStr (item_url item)),
      (''title'', PStr (item_title item)),
      (''snippet'', PStr (take 500 (item_snippet item))),
      (''subreddit'', PStr ''''),
      (''score'', PInt 0),
      (''num_comments'', PInt 0),
      (''created_utc'', PNone),
      (''author'', PStr '''')]"

text \<open>
  Both scrapers run their finds through the same accumulation: a find is appended, and
  its URL recorded, only if the URL is not yet in the scraper's own \<^verbatim>\<open>seen_urls\<close>.
  The argument is the sequence of submissions (of raw items) that the search loops meet,
  in order; which ones they meet is up to Reddit and DuckDuckGo.
\<close>

fun reddit_collect :: "string set \<Rightarrow> submission list \<Rightarrow> post list" where
  "reddit_collect seen_urls [] = []"
| "reddit_collect seen_urls (s # rest) =
     (let url = ''https://reddit.com'' @ sub_permalink s in
      if url \<notin> seen_urls
      then submission_to_dict s # reddit_collect (insert url seen_urls) rest
      else reddit_collect seen_urls rest)"

fun web_collect :: "string set \<Rightarrow> web_item list \<Rightarrow> post list" where
  "web_collect seen_urls [] = []"
| "web_collect seen_urls (item # rest) =
     (if item_url item \<in> seen_urls then web_collect seen_urls rest
      else web_post item # web_collect (insert (item_url item) seen_urls) rest)"

text \<open>A scraper call as \<^verbatim>\<open>main\<close> sees it: \<open>None\<close> when an exception escapes the call.\<close>

definition scrape_reddit :: "submission list option \<Rightarrow> post list option" where
  "scrape_reddit found = map_option (reddit_collect {}) found"

definition scrape_web :: "web_item list option \<Rightarrow> post list option" where
  "scrape_web found = map_option (web_collect {}) found"

section \<open>agent.py: the search-refine loop\<close>

record config =
  cfg_keywords :: "string list"
  cfg_subreddits :: "string list"
  cfg_sources :: "string list"
  cfg_min_intent_score :: int
  cfg_max_results :: int
  cfg_max_refinement_iterations :: "int option"

text \<open>\<^verbatim>\<open>config.get("max_refinement_iterations", 3)\<close>\<close>

definition max_iterations :: "config \<Rightarrow> int" where
  "max_iterations cfg = (case cfg_max_refinement_iterations cfg of None \<Rightarrow> 3 | Some m \<Rightarrow> m)"

text \<open>
  The external collaborators of one run. Each is indexed by the iteration that calls it
  (and the scoring oracle by batch and attempt as well), so that every call may behave
  differently. With them come the two string functions of the Python runtime that the
  model does not compute.
\<close>

record world =
  reddit_feed :: "int \<Rightarrow> string list \<Rightarrow> string list \<Rightarrow> submission list option"
  web_feed :: "int \<Rightarrow> string list \<Rightarrow> web_item list option"
  scoring_oracle :: "int \<Rightarrow> nat \<Rightarrow> nat \<Rightarrow> attempt"
  refinement_oracle :: "int \<Rightarrow> refine_reply"
  str_lower :: "string \<Rightarrow> string"
  str_chars :: "string \<Rightarrow> string list"

text \<open>
  The variables of \<^verbatim>\<open>main\<close> that live across iterations, and two counters that the
  program does not have: how many times the loop body was entered and how many times
  \<^verbatim>\<open>score_opportunities\<close> was called.
\<close>

record loop_state =
  all_seen_urls :: "pyval set"
  all_qualified :: "post list"
  total_raw :: nat
  current_keywords :: "string list"
  iterations_run :: nat
  scoring_passes :: nat

text \<open>
  How the loop ended: \<open>Completed\<close> is the \<^verbatim>\<open>else\<close> branch of the \<^verbatim>\<open>for\<close>, the next three
  are the \<^verbatim>\<open>break\<close>s with the value of \<open>iteration\<close> at that point, \<open>Raised\<close> is an
  exception that leaves the loop body.
\<close>

datatype stop =
    Completed
  | NoNewPosts int
  | TargetReached int
  | NoNewKeywords int
  | Raised error int

text \<open>Lines 131 to 146: both scraper calls sit in a \<^verbatim>\<open>try\<close> that turns an exception into no posts.\<close>

definition gather :: "config \<Rightarrow> world \<Rightarrow> int \<Rightarrow> string list \<Rightarrow> post list" where
  "gather cfg w iteration kws =
     (if ''reddit'' \<in> set (cfg_sources cfg)
      then (case scrape_reddit (reddit_feed w iteration kws (cfg_subreddits cfg)) of
              None \<Rightarrow> [] | Some ps \<Rightarrow> ps)
      else [])
     @
     (if ''web'' \<in> set (cfg_sources cfg)
      then (case scrape_web (web_feed w iteration kws) of None \<Rightarrow> [] | Some ps \<Rightarrow> ps)
      else [])"

text \<open>\<^verbatim>\<open>p["url"]\<close> as a member of a set.\<close>

definition url_key :: "post \<Rightarrow> error + pyval" where
  "url_key p = (case map_of p ''url'' of None \<Rightarrow> Inl KeyError | Some u \<Rightarrow> hash_key u)"

text \<open>Line 151: \<^verbatim>\<open>[p for p in iteration_posts if p["url"] not in all_seen_urls]\<close>\<close>

fun unseen_posts :: "pyval set \<Rightarrow> post list \<Rightarrow> error + post list" where
  "unseen_posts seen [] = Inr []"
| "unseen_posts seen (p # ps) =
     (case url_key p of
        Inl e \<Rightarrow> Inl e
      | Inr u \<Rightarrow>
          (case unseen_posts seen ps of
             Inl e \<Rightarrow> Inl e
           | Inr rest \<Rightarrow> Inr (if u \<notin> seen then p # rest else rest)))"

text \<open>Lines 152 and 153: \<^verbatim>\<open>for p in new_posts: all_seen_urls.add(p["url"])\<close>\<close>

fun add_urls :: "pyval set \<Rightarrow> post list \<Rightarrow> error + pyval set" where
  "add_urls seen [] = Inr seen"
| "add_urls seen (p # ps) =
     (case url_key p of Inl e \<Rightarrow> Inl e | Inr u \<Rightarrow> add_urls (insert u seen) ps)"

text \<open>Line 165: \<^verbatim>\<open>[p for p in scored if p.get("intent_score", 0) >= min_score]\<close>\<close>

fun qualified_posts :: "int \<Rightarrow> post list \<Rightarrow> error + post list" where
  "qualified_posts min_score [] = Inr []"
| "qualified_posts min_score (p # ps) =
     (case py_ge (dict_get p ''intent_score'' (PInt 0)) min_score of
        Inl e \<Rightarrow> Inl e
      | Inr b \<Rightarrow>
          (case qualified_posts min_score ps of
             Inl e \<Rightarrow> Inl e
           | Inr rest \<Rightarrow> Inr (if b then p # rest else rest)))"

text \<open>
  The sort key \<^verbatim>\<open>p["intent_score"]\<close>. Every post of \<open>all_qualified\<close> has passed the
  comparison of line 165, so its score is a number; the value 0 for anything else is
  never used on that list.
\<close>

definition score_key :: "post \<Rightarrow> rat" where
  "score_key p =
     (case map_of p ''intent_score'' of
        None \<Rightarrow> 0
      | Some v \<Rightarrow> (case num_of v of None \<Rightarrow> 0 | Some r \<Rightarrow> r))"

text \<open>
  \<^verbatim>\<open>sorted(ps, key=lambda p: p["intent_score"], reverse=True)\<close> and
  \<^verbatim>\<open>ps.sort(key=..., reverse=True)\<close>: descending, and stable also under \<^verbatim>\<open>reverse\<close>.
\<close>

definition sort_by_score_desc :: "post list \<Rightarrow> post list" where
  "sort_by_score_desc ps = sort_key (\<lambda>p. - score_key p) ps"

text \<open>\<^verbatim>\<open>xs[:n]\<close> for an int \<open>n\<close>; a negative \<open>n\<close> counts from the end.\<close>

definition py_prefix :: "int \<Rightarrow> 'a list \<Rightarrow> 'a list" where
  "py_prefix n xs = (if 0 \<le> n then take (nat n) xs else take (length xs - nat (- n)) xs)"

text \<open>Lines 174 to 184: the refinement step, entered only before the last iteration.\<close>

definition refine_step :: "config \<Rightarrow> world \<Rightarrow> int \<Rightarrow> loop_state \<Rightarrow> stop option \<times> loop_state" where
  "refine_step cfg w iteration st =
     (if iteration < max_iterations cfg
      then (case generate_refined_keywords (str_lower w) (str_chars w) (cfg_keywords cfg)
                   (sort_by_score_desc (all_qualified st)) (refinement_oracle w iteration) of
              Inl e \<Rightarrow> (Some (Raised e iteration), st)
            | Inr new_keywords \<Rightarrow>
                if new_keywords \<noteq> []
                then (None, st\<lparr>current_keywords := new_keywords\<rparr>)
                else (Some (NoNewKeywords iteration), st))
      else (None, st))"

text \<open>Lines 161 to 172: scoring, qualification and the target test.\<close>

definition score_step ::
    "config \<Rightarrow> world \<Rightarrow> int \<Rightarrow> post list \<Rightarrow> loop_state \<Rightarrow> stop option \<times> loop_state" where
  "score_step cfg w iteration new_posts st0 =
     (let st = st0\<lparr>scoring_passes := Suc (scoring_passes st0)\<rparr> in
      case score_opportunities (scoring_oracle w iteration) new_posts of
        Inl e \<Rightarrow> (Some (Raised e iteration), st)
      | Inr scored \<Rightarrow>
          (case qualified_posts (cfg_min_intent_score cfg) scored of
             Inl e \<Rightarrow> (Some (Raised e iteration), st)
           | Inr new_qualified \<Rightarrow>
               (let st' = st\<lparr>all_qualified := all_qualified st @ new_qualified\<rparr> in
                if int (length (all_qualified st')) \<ge> cfg_max_results cfg
                then (Some (TargetReached iteration), st')
                else refine_step cfg w iteration st')))"

text \<open>The loop body, lines 125 to 184. \<open>None\<close> means that the loop goes on.\<close>

definition iteration_body :: "config \<Rightarrow> world \<Rightarrow> int \<Rightarrow> loop_state \<Rightarrow> stop option \<times> loop_state" where
  "iteration_body cfg w iteration st0 =
     (let iteration_posts = gather cfg w iteration (current_keywords st0);
          st = st0\<lparr>iterations_run := Suc (iterations_run st0),
                   total_raw := total_raw st0 + length iteration_posts\<rparr>
      in case unseen_posts (all_seen_urls st) iteration_posts of
           Inl e \<Rightarrow> (Some (Raised e iteration), st)
         | Inr new_posts \<Rightarrow>
             (case add_urls (all_seen_urls st) new_posts of
                Inl e \<Rightarrow> (Some (Raised e iteration), st)
              | Inr seen \<Rightarrow>
                  (let st' = st\<lparr>all_seen_urls := seen\<rparr> in
                   if new_posts = [] then (Some (NoNewPosts iteration), st')
                   else score_step cfg w iteration new_posts st')))"

text \<open>\<^verbatim>\<open>for iteration in range(1, max_iterations + 1): ... else: ...\<close>\<close>

fun run_iterations :: "config \<Rightarrow> world \<Rightarrow> int list \<Rightarrow> loop_state \<Rightarrow> stop \<times> loop_state" where
  "run_iterations cfg w [] st = (Completed, st)"
| "run_iterations cfg w (iteration # rest) st =
     (case iteration_body cfg w iteration st of
        (None, st') \<Rightarrow> run_iterations cfg w rest st'
      | (Some s, st') \<Rightarrow> (s, st'))"

definition initial_state :: "config \<Rightarrow> loop_state" where
  "initial_state cfg =
     \<lparr>all_seen_urls = {}, all_qualified = [], total_raw = 0,
      current_keywords = cfg_keywords cfg, iterations_run = 0, scoring_passes = 0\<rparr>"

definition refinement_loop :: "config \<Rightarrow> world \<Rightarrow> stop \<times> loop_state" where
  "refinement_loop cfg w = run_iterations cfg w [1..max_iterations cfg] (initial_state cfg)"

text \<open>Lines 188 to 190: sort and trim.\<close>

definition sort_and_trim :: "int \<Rightarrow> post list \<Rightarrow> post list" where
  "sort_and_trim max_res qualified = py_prefix max_res (sort_by_score_desc qualified)"

text \<open>The list \<open>top\<close> of a run, or the exception that ended it.\<close>

definition run_top :: "config \<Rightarrow> world \<Rightarrow> error + post list" where
  "run_top cfg w =
     (case refinement_loop cfg w of
        (Raised e i, st) \<Rightarrow> Inl e
      | (s, st) \<Rightarrow> Inr (sort_and_trim (cfg_max_results cfg) (all_qualified st)))"

section \<open>Notions of the specification\<close>

text \<open>
  A post is annotated when it carries all five scoring fields and agrees with the post it
  came from on every other key.
\<close>

definition annotated :: "post \<Rightarrow> post \<Rightarrow> bool" where
  "annotated p p' =
     ((\<forall>k \<in> set scoring_fields. map_of p' k \<noteq> None) \<and>
      (\<forall>k. k \<notin> set scoring_fields \<longrightarrow> map_of p' k = map_of p k))"

text \<open>A text field as the scrapers fill it: absent, or a string.\<close>

definition text_field :: "string \<Rightarrow> post \<Rightarrow> bool" where
  "text_field k p = (case map_of p k of None \<Rightarrow> True | Some (PStr s) \<Rightarrow> True | Some v \<Rightarrow> False)"

text \<open>
  A reply of the shape that the annotation \<^verbatim>\<open>list[dict]\<close> of \<^verbatim>\<open>_parse_response\<close>
  declares: a list of objects, the \<^verbatim>\<open>id\<close> of an object, where it has one, being a
  scalar. JSON \<^verbatim>\<open>null\<close> is harmless as well, it counts as a failed batch.
\<close>

fun item_ok :: "pyval \<Rightarrow> bool" where
  "item_ok (PDict d) =
     (case map_of d ''id'' of
        None \<Rightarrow> True
      | Some k \<Rightarrow> (case hash_key k of Inl e \<Rightarrow> False | Inr hk \<Rightarrow> True))"
| "item_ok v = False"

fun reply_ok :: "pyval \<Rightarrow> bool" where
  "reply_ok PNone = True"
| "reply_ok (PList items) = list_all item_ok items"
| "reply_ok v = False"

text \<open>An attempt that raised inside the \<^verbatim>\<open>try\<close>.\<close>

fun failed :: "attempt \<Rightarrow> bool" where
  "failed (Parsed v) = False"
| "failed a = True"

text \<open>
  The correlation of section 4.2 of the specification, in its words: by the id field if
  every item carries one (the id being the position that \<^verbatim>\<open>_build_user_message\<close> gave
  the post, and the last of several items of one id counting), else by position.
\<close>

fun item_id :: "pyval \<Rightarrow> pyval option" where
  "item_id (PDict d) = map_of d ''id''"
| "item_id v = None"

definition id_equals :: "nat \<Rightarrow> pyval \<Rightarrow> bool" where
  "id_equals i item =
     (case item_id item of None \<Rightarrow> False | Some k \<Rightarrow> num_of k = Some (of_nat i))"

definition spec_correlated_item :: "pyval list \<Rightarrow> nat \<Rightarrow> pyval option" where
  "spec_correlated_item items i =
     (if list_all (\<lambda>item. item_id item \<noteq> None) items
      then find (id_equals i) (rev items)
      else if i < length items then Some (items ! i) else None)"

text \<open>The defaults of lines 118 to 122, and the five values a post receives from its item.\<close>

definition merge_defaults :: pydict where
  "merge_defaults =
     [(''topic_label'', PStr ''general_education''),
      (''intent_score'', PInt 0),
      (''recommended_action'', PStr ''content''),
      (''suggested_response'', PStr ''''),
      (''why_this_matters'', PStr '''')]"

definition merged_fields :: "pyval option \<Rightarrow> pydict" where
  "merged_fields c =
     (let info = (case c of Some (PDict d) \<Rightarrow> d | _ \<Rightarrow> [])
      in map (\<lambda>(f, dflt). (f, dict_get info f dflt)) merge_defaults)"

text \<open>An intent score within the range of the specification.\<close>

definition in_range :: "pyval \<Rightarrow> bool" where
  "in_range v = (case num_of v of None \<Rightarrow> False | Some r \<Rightarrow> 0 \<le> r \<and> r \<le> 100)"

fun item_score_ok :: "pyval \<Rightarrow> bool" where
  "item_score_ok (PDict d) =
     (case map_of d ''intent_score'' of None \<Rightarrow> True | Some v \<Rightarrow> in_range v)"
| "item_score_ok v = True"

fun reply_scores_ok :: "pyval \<Rightarrow> bool" where
  "reply_scores_ok (PList items) = list_all item_score_ok items"
| "reply_scores_ok v = True"

text \<open>The iteration in which the loop was left by a \<^verbatim>\<open>break\<close> or an exception.\<close>

fun stopped_at :: "stop \<Rightarrow> int option" where
  "stopped_at Completed = None"
| "stopped_at (NoNewPosts i) = Some i"
| "stopped_at (TargetReached i) = Some i"
| "stopped_at (NoNewKeywords i) = Some i"
| "stopped_at (Raised e i) = Some i"

text \<open>A post whose \<^verbatim>\<open>intent_score\<close> is present and a number.\<close>

definition numeric_score :: "post \<Rightarrow> bool" where
  "numeric_score p = (case map_of p ''intent_score'' of None \<Rightarrow> False | Some v \<Rightarrow> num_of v \<noteq> None)"



text \<open>The characters of a string that has one char per character.\<close>

definition char_split :: "string \<Rightarrow> string list" where
  "char_split s = map (\<lambda>c. [c]) s"

section \<open>Sample inputs\<close>

text \<open>A web post, a Reddit post, an item of an oracle reply, and some oracles.\<close>

definition example_post :: post where
  "example_post = web_post \<lparr>item_url = ''https://www.quora.com/q/1'',
     item_title = ''How to prepare for GRE'', item_snippet = ''I need help''\<rparr>"

definition example_post2 :: post where
  "example_post2 = submission_to_dict \<lparr>sub_permalink = ''/r/GRE/comments/1/'',
     sub_title = ''GRE in 2 months'', sub_selftext = Some ''Any tips'', sub_subreddit = ''GRE'',
     sub_score = 3, sub_num_comments = 1, sub_created_utc = 1700000000, sub_author = ''u1''\<rparr>"

definition example_item :: "int \<Rightarrow> pyval" where
  "example_item score =
     PDict [(''id'', PInt 0), (''topic_label'', PStr ''GRE''), (''intent_score'', PInt score),
            (''recommended_action'', PStr ''DM''), (''suggested_response'', PStr ''Happy to help''),
            (''why_this_matters'', PStr ''Asks for help'')]"

definition wrapped_reply :: pyval where
  "wrapped_reply = PDict [(''results'', PList [example_item 90])]"



definition first_item_only :: "nat \<Rightarrow> attempt" where
  "first_item_only a = Parsed (PList [example_item 90])"

definition out_of_range_oracle :: score_oracle where
  "out_of_range_oracle b a = Parsed (PList [example_item 150])"

text \<open>
  A run over the web source alone: two finds in every iteration, scored 75 and 95, and a
  refiner that proposes one new keyword; all its text is ASCII. A variant whose oracle answers with a score that
  is no number, and a variant in which both scrapers find the same Reddit thread.
\<close>

definition sample_config :: config where
  "sample_config =
     \<lparr>cfg_keywords = [''GRE prep''], cfg_subreddits = [''GRE''], cfg_sources = [''web''],
      cfg_min_intent_score = 60, cfg_max_results = 5, cfg_max_refinement_iterations = None\<rparr>"

definition sample_item2 :: web_item where
  "sample_item2 = \<lparr>item_url = ''https://x.com/u/status/2'', item_title = ''TOEFL or IELTS'',
     item_snippet = ''Which one should I take''\<rparr>"

definition sample_world :: world where
  "sample_world =
     \<lparr>reddit_feed = (\<lambda>i kws subs. None),
      web_feed = (\<lambda>i kws. Some [\<lparr>item_url = ''https://www.quora.com/q/1'',
                    item_title = ''How to prepare for GRE'', item_snippet = ''I need help''\<rparr>,
                  sample_item2]),
      scoring_oracle = (\<lambda>i b a. Parsed (PList
         [PDict [(''id'', PInt 0), (''intent_score'', PInt 75)],
          PDict [(''id'', PInt 1), (''intent_score'', PInt 95)]])),
      refinement_oracle = (\<lambda>i. RefineParsed (PList [PStr ''TOEFL tips''])),
      str_lower = ascii_lower, str_chars = char_split\<rparr>"

definition non_numeric_world :: world where
  "non_numeric_world =
     sample_world\<lparr>scoring_oracle := (\<lambda>i b a. Parsed (PList
         [PDict [(''id'', PInt 0), (''intent_score'', PStr ''high'')]]))\<rparr>"

definition dup_submission :: submission where
  "dup_submission = \<lparr>sub_permalink = ''/r/GRE/comments/1/'', sub_title = ''GRE in 2 months'',
     sub_selftext = Some ''Any tips'', sub_subreddit = ''GRE'', sub_score = 3,
     sub_num_comments = 1, sub_created_utc = 1700000000, sub_author = ''u1''\<rparr>"

definition dup_item :: web_item where
  "dup_item = \<lparr>item_url = ''https://reddit.com/r/GRE/comments/1/'',
     item_title = ''GRE in 2 months : r/GRE'', item_snippet = ''Any tips''\<rparr>"

definition dup_config :: config where
  "dup_config = sample_config\<lparr>cfg_sources := [''reddit'', ''web'']\<rparr>"

definition dup_world :: world where
  "dup_world =
     sample_world\<lparr>reddit_feed := (\<lambda>i kws subs. Some [dup_submission]),
                  web_feed := (\<lambda>i kws. Some [dup_item])\<rparr>"

text \<open>The post \<open>p\<close> after the merge of an item with id \<open>i\<close> and the given score.\<close>

definition scored_as :: "post \<Rightarrow> int \<Rightarrow> int \<Rightarrow> post" where
  "scored_as p i score =
     dict_update p (merged_fields (Some (PDict [(''id'', PInt i), (''intent_score'', PInt score)])))"

section \<open>Properties of the outreach classifier\<close>

lemma classify_outreach_action_int:
  assumes "map_of post ''intent_score'' = Some (PInt s)"
    and "map_of post ''recommended_action'' = Some (PStr a)"
  shows "classify_outreach_action post = Inr (classify s a)"
  using assms
  by (simp add: classify_outreach_action_def classify_def dict_get_def py_ge_def Let_def
      DM_MIN_SCORE_def COMMENT_MIN_SCORE_def CONTENT_NOTE_MIN_SCORE_def)

lemma classify_outreach_action_cong:
  assumes "map_of q ''intent_score'' = map_of p ''intent_score''"
    and "map_of q ''recommended_action'' = map_of p ''recommended_action''"
  shows "classify_outreach_action q = classify_outreach_action p"
  using assms by (simp add: classify_outreach_action_def dict_get_def)

text \<open>
  Claim C7. The classifier depends on a post only through its \<^verbatim>\<open>intent_score\<close> and
  \<^verbatim>\<open>recommended_action\<close> entries, and on an integer score and a string action it is
  exactly the table of the specification: \<open>dm\<close> iff the score is at least 80 and the action
  is \<open>DM\<close>, \<open>comment\<close> iff at least 70 and \<open>comment\<close>, \<open>content_idea\<close> iff at least 60
  and \<open>content\<close>, none in every other case; the four sample points evaluate as listed.
\<close>

theorem C7_classify_table:
  assumes "map_of p ''intent_score'' = Some (PInt s)"
    and "map_of p ''recommended_action'' = Some (PStr a)"
  shows "classify_outreach_action p = Inr (classify s a)
    \<and> (classify_outreach_action p = Inr (Some ''dm'')) = (80 \<le> s \<and> a = ''DM'')
    \<and> (classify_outreach_action p = Inr (Some ''comment'')) = (70 \<le> s \<and> a = ''comment'')
    \<and> (classify_outreach_action p = Inr (Some ''content_idea'')) = (60 \<le> s \<and> a = ''content'')
    \<and> (classify_outreach_action p = Inr None) =
          (\<not> (80 \<le> s \<and> a = ''DM'') \<and> \<not> (70 \<le> s \<and> a = ''comment'')
            \<and> \<not> (60 \<le> s \<and> a = ''content''))
    \<and> (\<forall>q. map_of q ''intent_score'' = map_of p ''intent_score''
            \<and> map_of q ''recommended_action'' = map_of p ''recommended_action''
          \<longrightarrow> classify_outreach_action q = classify_outreach_action p)
    \<and> classify_outreach_action
          [(''intent_score'', PInt 85), (''recommended_action'', PStr ''DM'')] = Inr (Some ''dm'')
    \<and> classify_outreach_action
          [(''intent_score'', PInt 65), (''recommended_action'', PStr ''comment'')] = Inr None
    \<and> classify_outreach_action
          [(''intent_score'', PInt 60), (''recommended_action'', PStr ''content'')]
          = Inr (Some ''content_idea'')
    \<and> classify_outreach_action
          [(''intent_score'', PInt 59), (''recommended_action'', PStr ''content'')] = Inr None"
proof -
  have p: "classify_outreach_action p = Inr (classify s a)"
    using assms by (rule classify_outreach_action_int)
  have dm: "(classify s a = Some ''dm'') = (80 \<le> s \<and> a = ''DM'')"
    by (auto simp: classify_def)
  have cm: "(classify s a = Some ''comment'') = (70 \<le> s \<and> a = ''comment'')"
    by (auto simp: classify_def)
  have ct: "(classify s a = Some ''content_idea'') = (60 \<le> s \<and> a = ''content'')"
    by (auto simp: classify_def)
  have no: "(classify s a = None) =
          (\<not> (80 \<le> s \<and> a = ''DM'') \<and> \<not> (70 \<le> s \<and> a = ''comment'')
            \<and> \<not> (60 \<le> s \<and> a = ''content''))"
    by (auto simp: classify_def)
  have pure: "\<forall>q. map_of q ''intent_score'' = map_of p ''intent_score''
            \<and> map_of q ''recommended_action'' = map_of p ''recommended_action''
          \<longrightarrow> classify_outreach_action q = classify_outreach_action p"
    using classify_outreach_action_cong by blast
  have e1: "classify_outreach_action
          [(''intent_score'', PInt 85), (''recommended_action'', PStr ''DM'')] = Inr (Some ''dm'')"
    by (simp add: classify_outreach_action_int classify_def)
  have e2: "classify_outreach_action
          [(''intent_score'', PInt 65), (''recommended_action'', PStr ''comment'')] = Inr None"
    by (simp add: classify_outreach_action_int classify_def)
  have e3: "classify_outreach_action
          [(''intent_score'', PInt 60), (''recommended_action'', PStr ''content'')]
          = Inr (Some ''content_idea'')"
    by (simp add: classify_outreach_action_int classify_def)
  have e4: "classify_outreach_action
          [(''intent_score'', PInt 59), (''recommended_action'', PStr ''content'')] = Inr None"
    by (simp add: classify_outreach_action_int classify_def)
  show ?thesis
    unfolding p using dm cm ct no pure e1 e2 e3 e4 by (simp add: p)
qed

theorem C7_classify_table_witness:
  "classify_outreach_action
     [(''intent_score'', PInt 85), (''recommended_action'', PStr ''DM''), (''url'', PStr ''u'')]
   = Inr (Some ''dm'')"
  using C7_classify_table[of "[(''intent_score'', PInt 85), (''recommended_action'', PStr ''DM''),
      (''url'', PStr ''u'')]" 85 "''DM''"]
  by (simp add: classify_def)

text \<open>
  Claim C10. The action is compared case-sensitively with the exact strings \<open>DM\<close>,
  \<open>comment\<close> and \<open>content\<close>: for any other action string the classifier returns none
  whatever the score, in particular for \<open>dm\<close> and \<open>Comment\<close> at score 100.
\<close>

theorem C10_action_case_sensitive:
  assumes "map_of p ''intent_score'' = Some (PInt s)"
    and "map_of p ''recommended_action'' = Some (PStr a)"
    and "a \<noteq> ''DM''" and "a \<noteq> ''comment''" and "a \<noteq> ''content''"
  shows "classify_outreach_action p = Inr None
    \<and> classify_outreach_action
         [(''intent_score'', PInt 100), (''recommended_action'', PStr ''dm'')] = Inr None
    \<and> classify_outreach_action
         [(''intent_score'', PInt 100), (''recommended_action'', PStr ''Comment'')] = Inr None"
  using assms
  by (simp add: classify_outreach_action_def dict_get_def py_ge_def Let_def
      DM_MIN_SCORE_def COMMENT_MIN_SCORE_def CONTENT_NOTE_MIN_SCORE_def)

theorem C10_action_case_sensitive_witness:
  "classify_outreach_action
     [(''intent_score'', PInt 100), (''recommended_action'', PStr ''Content'')] = Inr None"
  using C10_action_case_sensitive[of
      "[(''intent_score'', PInt 100), (''recommended_action'', PStr ''Content'')]" 100 "''Content''"]
  by simp

section \<open>Dictionaries\<close>

lemma map_of_dict_update: "map_of (dict_update d new) = map_of d ++ map_of (rev new)"
proof (induction new arbitrary: d)
  case Nil
  show ?case by (simp add: dict_update_def)
next
  case (Cons kv new)
  obtain k v where kv: "kv = (k, v)" by (cases kv)
  have step: "dict_update d ((k, v) # new) = dict_update (AList.update k v d) new"
    by (simp add: dict_update_def)
  have "map_of (dict_update d ((k, v) # new)) = map_of d ++ map_of (rev ((k, v) # new))"
    unfolding step Cons.IH
    by (rule ext) (simp add: update_conv' map_add_def split: option.splits)
  then show ?case by (simp only: kv)
qed

lemma dict_update_other:
  "k \<notin> fst ` set new \<Longrightarrow> map_of (dict_update d new) k = map_of d k"
  by (simp add: map_of_dict_update map_add_def map_of_eq_None_iff split: option.splits)
     (metis map_of_eq_None_iff option.distinct(1) set_rev)

lemma dict_update_present:
  "k \<in> fst ` set new \<Longrightarrow> map_of (dict_update d new) k \<noteq> None"
  by (simp add: map_of_dict_update map_add_def map_of_eq_None_iff split: option.splits)

lemma dict_update_distinct:
  "distinct (map fst new) \<Longrightarrow> map_of new k = Some v \<Longrightarrow> map_of (dict_update d new) k = Some v"
  by (simp add: map_of_dict_update map_add_def distinct_rev rev_map[symmetric] split: option.splits)

lemma annotated_dict_update:
  "map fst fs = scoring_fields \<Longrightarrow> annotated p (dict_update p fs)"
  unfolding annotated_def
  by (metis dict_update_other dict_update_present list.set_map)

section \<open>Properties of the intent scorer\<close>

lemma info_fields_keys: "info_fields v = Inr fs \<Longrightarrow> map fst fs = scoring_fields"
  by (cases v) (auto simp: scoring_fields_def)

lemma fallback_fields_keys: "map fst fallback_fields = scoring_fields"
  by (simp add: fallback_fields_def scoring_fields_def)

lemma merge_scores_annotated:
  "merge_scores sm i batch = Inr out \<Longrightarrow> list_all2 annotated batch out"
proof (induction batch arbitrary: i out)
  case Nil
  then show ?case by simp
next
  case (Cons p ps)
  then show ?case
    by (auto split: sum.splits simp: annotated_dict_update info_fields_keys)
qed

lemma score_batch_cases:
  assumes "score_batch call batch = Inr out"
  shows "(call_with_retries call [0..<3] = PNone
            \<and> out = map (\<lambda>post. dict_update post fallback_fields) batch)
         \<or> (\<exists>items has_ids sm. call_with_retries call [0..<3] \<noteq> PNone
               \<and> py_iter (call_with_retries call [0..<3]) = Inr items
               \<and> all_contain_id items = Inr has_ids
               \<and> (if has_ids then id_score_map items [] else Inr (enumerate_score_map items)) = Inr sm
               \<and> merge_scores sm 0 batch = Inr out)"
proof -
  obtain msg where msg: "build_user_message batch = Inr msg"
    using assms by (cases "build_user_message batch") (simp_all add: score_batch_def)
  show ?thesis
  proof (cases "call_with_retries call [0..<3] = PNone")
    case True
    with assms msg show ?thesis by (simp add: score_batch_def)
  next
    case False
    obtain items where items: "py_iter (call_with_retries call [0..<3]) = Inr items"
      using assms msg False
      by (cases "py_iter (call_with_retries call [0..<3])") (simp_all add: score_batch_def)
    obtain has_ids where has: "all_contain_id items = Inr has_ids"
      using assms msg False items
      by (cases "all_contain_id items") (simp_all add: score_batch_def)
    obtain sm where sm: "(if has_ids then id_score_map items [] else Inr (enumerate_score_map items)) = Inr sm"
      using assms msg False items has
      by (cases "if has_ids then id_score_map items [] else Inr (enumerate_score_map items)")
         (simp_all add: score_batch_def)
    have "merge_scores sm 0 batch = Inr out"
      using assms msg False items has sm by (simp add: score_batch_def)
    with False items has sm show ?thesis by blast
  qed
qed

lemma fallback_annotated:
  "list_all2 annotated batch (map (\<lambda>post. dict_update post fallback_fields) batch)"
  by (simp add: list_all2_map2 list_all2_same annotated_dict_update fallback_fields_keys)

lemma score_batch_annotated:
  "score_batch call batch = Inr out \<Longrightarrow> list_all2 annotated batch out"
  using score_batch_cases[of call batch out] fallback_annotated merge_scores_annotated
  by auto

declare score_loop.simps [simp del]

lemma score_loop_done: "\<not> start < length posts \<Longrightarrow> score_loop orc posts start scored = Inr scored"
  by (subst score_loop.simps) simp

lemma score_loop_step:
  "start < length posts \<Longrightarrow>
   score_loop orc posts start scored =
     (case score_batch (orc (start div batch_size)) (take batch_size (drop start posts)) of
        Inl e \<Rightarrow> Inl e
      | Inr new \<Rightarrow> score_loop orc posts (start + batch_size) (scored @ new))"
  by (subst score_loop.simps) simp

lemma score_loop_annotated:
  "score_loop orc posts start scored = Inr out \<Longrightarrow>
     \<exists>new. out = scored @ new \<and> list_all2 annotated (drop start posts) new"
proof (induction orc posts start scored arbitrary: out rule: score_loop.induct)
  case (1 orc posts start scored)
  show ?case
  proof (cases "start < length posts")
    case False
    with "1.prems" show ?thesis by (simp add: score_loop_done)
  next
    case True
    obtain new where new: "score_batch (orc (start div batch_size))
        (take batch_size (drop start posts)) = Inr new"
      using "1.prems" True
      by (cases "score_batch (orc (start div batch_size)) (take batch_size (drop start posts))")
         (simp_all add: score_loop_step)
    have rest: "score_loop orc posts (start + batch_size) (scored @ new) = Inr out"
      using "1.prems" True new by (simp add: score_loop_step)
    from "1.IH"[OF True new rest] obtain new' where
      out: "out = (scored @ new) @ new'"
      and a': "list_all2 annotated (drop (start + batch_size) posts) new'" by blast
    have a: "list_all2 annotated (take batch_size (drop start posts)) new"
      using new by (rule score_batch_annotated)
    have "drop start posts = take batch_size (drop start posts) @ drop (start + batch_size) posts"
      by (metis append_take_drop_id drop_drop add.commute)
    then have "list_all2 annotated (drop start posts) (new @ new')"
      using a a' by (metis list_all2_appendI)
    with out show ?thesis by simp
  qed
qed

lemma score_opportunities_annotated:
  "score_opportunities orc posts = Inr out \<Longrightarrow> list_all2 annotated posts out"
  using score_loop_annotated[of orc posts 0 "[]" out]
  by (auto simp: score_opportunities_def split: if_splits)

lemma build_items_ok:
  "\<forall>p \<in> set batch. text_field ''snippet'' p \<Longrightarrow> \<exists>items. build_items i batch = Inr items"
proof (induction batch arbitrary: i)
  case Nil
  show ?case by simp
next
  case (Cons p ps)
  from Cons.prems have "\<exists>s. dict_get p ''snippet'' (PStr '''') = PStr s"
    by (auto simp: text_field_def dict_get_def split: option.splits pyval.splits)
  moreover from Cons obtain items where "build_items (Suc i) ps = Inr items" by fastforce
  ultimately show ?case by auto
qed

lemma call_with_retries_cases:
  "call_with_retries call as = PNone \<or> (\<exists>a \<in> set as. call a = Parsed (call_with_retries call as))"
  by (induction as) (auto split: attempt.splits)


lemma item_ok_dict: "item_ok item \<Longrightarrow> \<exists>d. item = PDict d"
  by (cases item) simp_all

lemma all_contain_id_dicts:
  "list_all item_ok items \<Longrightarrow>
     all_contain_id items = Inr (list_all (\<lambda>item. item_id item \<noteq> None) items)"
proof (induction items)
  case Nil
  show ?case by simp
next
  case (Cons item items)
  then obtain d where "item = PDict d" using item_ok_dict by auto
  with Cons show ?case by auto
qed

lemma hash_key_index:
  "hash_key k = Inr hk \<Longrightarrow> (hk = PInt (int i)) = (num_of k = Some (of_nat i))"
proof (cases k)
  case (PFloat r)
  assume "hash_key k = Inr hk"
  with PFloat show ?thesis
    by (auto split: if_splits) (metis floor_of_nat of_int_of_nat_eq)+
qed (auto split: if_splits)

lemma find_snoc:
  "find P (xs @ [x]) = (case find P xs of Some y \<Rightarrow> Some y | None \<Rightarrow> if P x then Some x else None)"
  by (induction xs) auto

lemma id_score_map_lookup:
  assumes "list_all item_ok items" and "list_all (\<lambda>item. item_id item \<noteq> None) items"
  shows "\<exists>sm. id_score_map items m = Inr sm \<and>
           (\<forall>i. map_of sm (PInt (int i)) =
                  (case find (id_equals i) (rev items) of
                     Some item \<Rightarrow> Some item
                   | None \<Rightarrow> map_of m (PInt (int i))))"
  using assms
proof (induction items arbitrary: m)
  case Nil
  show ?case by simp
next
  case (Cons item items)
  from Cons.prems obtain d k hk where item: "item = PDict d" and k: "map_of d ''id'' = Some k"
    and hk: "hash_key k = Inr hk"
    by (cases item) (auto split: option.splits sum.splits)
  from Cons.prems have "list_all item_ok items" "list_all (\<lambda>item. item_id item \<noteq> None) items"
    by simp_all
  from Cons.IH[OF this, of "AList.update hk item m"] obtain sm where
    sm: "id_score_map items (AList.update hk item m) = Inr sm"
    and look: "\<And>i. map_of sm (PInt (int i)) =
                  (case find (id_equals i) (rev items) of
                     Some item \<Rightarrow> Some item
                   | None \<Rightarrow> map_of (AList.update hk item m) (PInt (int i)))"
    by blast
  have step: "id_score_map (item # items) m = Inr sm"
    using item k hk sm by simp
  have eq: "\<And>i. id_equals i item = (hk = PInt (int i))"
    using hash_key_index[OF hk] by (simp add: id_equals_def item k)
  have "\<And>i. map_of sm (PInt (int i)) =
                  (case find (id_equals i) (rev (item # items)) of
                     Some item \<Rightarrow> Some item
                   | None \<Rightarrow> map_of m (PInt (int i)))"
    by (auto simp: look find_snoc update_conv' eq split: option.splits)
  with step show ?case by blast
qed

lemma id_score_map_values:
  "id_score_map items m = Inr sm \<Longrightarrow> map_of sm k = Some v \<Longrightarrow>
     v \<in> set items \<or> map_of m k = Some v"
proof (induction items arbitrary: m)
  case Nil
  then show ?case by simp
next
  case (Cons item items)
  from Cons.prems(1) obtain k' hk where "getitem_id item = Inr k'" "hash_key k' = Inr hk"
    and sm: "id_score_map items (AList.update hk item m) = Inr sm"
    by (auto split: sum.splits)
  from Cons.IH[OF sm Cons.prems(2)] show ?case
    by (auto simp: update_conv' split: if_splits)
qed

lemma enumerate_score_map_lookup:
  "map_of (enumerate_score_map items) (PInt (int i)) =
     (if i < length items then Some (items ! i) else None)"
proof (cases "i < length items")
  case True
  have d: "distinct (map (\<lambda>i. PInt (int i)) [0..<length items])"
    by (simp add: distinct_map inj_on_def)
  have "map_of (zip (map (\<lambda>i. PInt (int i)) [0..<length items]) items)
          (map (\<lambda>i. PInt (int i)) [0..<length items] ! i) = Some (items ! i)"
    by (rule map_of_zip_nth) (simp_all add: d True)
  with True show ?thesis by (simp add: enumerate_score_map_def)
next
  case False
  have "PInt (int i) \<notin> fst ` set (enumerate_score_map items)"
    using False by (auto simp: enumerate_score_map_def dest!: set_zip_leftD)
  with False show ?thesis by (simp add: map_of_eq_None_iff)
qed

lemma enumerate_score_map_values:
  "map_of (enumerate_score_map items) k = Some v \<Longrightarrow> v \<in> set items"
  by (auto simp: enumerate_score_map_def dest!: map_of_SomeD set_zip_rightD)

lemma info_fields_merged: "info_fields (PDict d) = Inr (merged_fields (Some (PDict d)))"
  by (simp add: merged_fields_def merge_defaults_def)

lemma info_fields_empty: "info_fields (PDict []) = Inr (merged_fields None)"
  by (simp add: merged_fields_def merge_defaults_def)

lemma merged_fields_None: "merged_fields None = merged_fields (Some (PDict []))"
  by (simp add: merged_fields_def)

lemma merge_scores_exact:
  assumes "\<And>k v. map_of sm k = Some v \<Longrightarrow> \<exists>d. v = PDict d"
  shows "merge_scores sm i batch =
           Inr (map (\<lambda>(j, post). dict_update post (merged_fields (map_of sm (PInt (int j)))))
                  (zip [i..<i + length batch] batch))"
proof (induction batch arbitrary: i)
  case Nil
  show ?case by simp
next
  case (Cons p ps)
  have up: "[i..<i + length (p # ps)] = i # [Suc i..<Suc i + length ps]"
    by (simp add: upt_rec)
  have info: "info_fields (case map_of sm (PInt (int i)) of None \<Rightarrow> PDict [] | Some info \<Rightarrow> info)
        = Inr (merged_fields (map_of sm (PInt (int i))))"
  proof (cases "map_of sm (PInt (int i))")
    case None
    then show ?thesis by (simp add: info_fields_empty del: info_fields.simps)
  next
    case (Some v)
    with assms obtain d where "v = PDict d" by blast
    with Some show ?thesis by (simp add: info_fields_merged del: info_fields.simps)
  qed
  show ?case
    unfolding up by (simp add: info Cons.IH del: info_fields.simps)
qed

lemma spec_correlated_item_ids:
  assumes "list_all item_ok items" and "list_all (\<lambda>item. item_id item \<noteq> None) items"
    and "id_score_map items [] = Inr sm"
  shows "map_of sm (PInt (int i)) = spec_correlated_item items i"
proof -
  from id_score_map_lookup[OF assms(1,2), of "[]"] assms(3)
  have "map_of sm (PInt (int i)) =
          (case find (id_equals i) (rev items) of Some item \<Rightarrow> Some item | None \<Rightarrow> None)"
    by (auto split: option.splits)
  then show ?thesis
    using assms(2) by (simp add: spec_correlated_item_def split: option.splits)
qed

lemma spec_correlated_item_pos:
  assumes "\<not> list_all (\<lambda>item. item_id item \<noteq> None) items"
  shows "map_of (enumerate_score_map items) (PInt (int i)) = spec_correlated_item items i"
  using assms by (simp add: enumerate_score_map_lookup spec_correlated_item_def)

lemma score_batch_exact:
  assumes snip: "\<forall>p \<in> set batch. text_field ''snippet'' p"
    and res: "call_with_retries call [0..<3] = PList items"
    and ok: "list_all item_ok items"
  shows "score_batch call batch =
           Inr (map (\<lambda>(j, post). dict_update post (merged_fields (spec_correlated_item items j)))
                  (zip [0..<length batch] batch))"
proof -
  obtain msg where msg: "build_user_message batch = Inr msg"
    using build_items_ok[OF snip] by (auto simp: build_user_message_def)
  have has: "all_contain_id items = Inr (list_all (\<lambda>item. item_id item \<noteq> None) items)"
    using ok by (rule all_contain_id_dicts)
  have dicts: "\<And>v. v \<in> set items \<Longrightarrow> \<exists>d. v = PDict d"
    using ok item_ok_dict by (auto simp: list_all_iff)
  show ?thesis
  proof (cases "list_all (\<lambda>item. item_id item \<noteq> None) items")
    case True
    from id_score_map_lookup[OF ok True, of "[]"] obtain sm where
      sm: "id_score_map items [] = Inr sm" by blast
    have vals: "\<And>k v. map_of sm k = Some v \<Longrightarrow> \<exists>d. v = PDict d"
      using id_score_map_values[OF sm] dicts by fastforce
    have look: "\<And>i. map_of sm (PInt (int i)) = spec_correlated_item items i"
      using spec_correlated_item_ids[OF ok True sm] .
    have has': "all_contain_id items = Inr True"
      using has True by simp
    have "score_batch call batch = merge_scores sm 0 batch"
      by (simp add: score_batch_def msg res has' sm)
    then show ?thesis
      by (simp add: merge_scores_exact[OF vals] look)
  next
    case False
    have vals: "\<And>k v. map_of (enumerate_score_map items) k = Some v \<Longrightarrow> \<exists>d. v = PDict d"
      using enumerate_score_map_values dicts by blast
    have look: "\<And>i. map_of (enumerate_score_map items) (PInt (int i)) = spec_correlated_item items i"
      using spec_correlated_item_pos[OF False] .
    have has': "all_contain_id items = Inr False"
      using has False by simp
    have "score_batch call batch = merge_scores (enumerate_score_map items) 0 batch"
      by (simp add: score_batch_def msg res has')
    then show ?thesis
      by (simp add: merge_scores_exact[OF vals] look)
  qed
qed

lemma score_batch_fallback:
  assumes snip: "\<forall>p \<in> set batch. text_field ''snippet'' p"
    and res: "call_with_retries call [0..<3] = PNone"
  shows "score_batch call batch = Inr (map (\<lambda>post. dict_update post fallback_fields) batch)"
proof -
  obtain msg where msg: "build_user_message batch = Inr msg"
    using build_items_ok[OF snip] by (auto simp: build_user_message_def)
  show ?thesis by (simp add: score_batch_def msg res)
qed

lemma score_batch_returns:
  assumes snip: "\<forall>p \<in> set batch. text_field ''snippet'' p"
    and ok: "\<forall>a v. call a = Parsed v \<longrightarrow> reply_ok v"
  shows "\<exists>out. score_batch call batch = Inr out"
proof -
  from call_with_retries_cases[of call "[0..<3]"] ok
  have "reply_ok (call_with_retries call [0..<3])" by auto
  then consider "call_with_retries call [0..<3] = PNone"
    | items where "call_with_retries call [0..<3] = PList items" "list_all item_ok items"
    by (cases "call_with_retries call [0..<3]") auto
  then show ?thesis
  proof cases
    case 1
    then show ?thesis using score_batch_fallback[OF snip] by blast
  next
    case 2
    then show ?thesis using score_batch_exact[OF snip] by blast
  qed
qed

lemma score_loop_returns:
  assumes snip: "\<forall>p \<in> set posts. text_field ''snippet'' p"
    and ok: "\<forall>b a v. orc b a = Parsed v \<longrightarrow> reply_ok v"
  shows "\<exists>out. score_loop orc posts start scored = Inr out"
  using assms
proof (induction orc posts start scored rule: score_loop.induct)
  case (1 orc posts start scored)
  show ?case
  proof (cases "start < length posts")
    case False
    then show ?thesis by (simp add: score_loop_done)
  next
    case True
    have "\<forall>p \<in> set (take batch_size (drop start posts)). text_field ''snippet'' p"
      using "1.prems"(1) by (meson in_set_dropD in_set_takeD)
    moreover have "\<forall>a v. orc (start div batch_size) a = Parsed v \<longrightarrow> reply_ok v"
      using "1.prems"(2) by blast
    ultimately obtain new where new: "score_batch (orc (start div batch_size))
        (take batch_size (drop start posts)) = Inr new"
      using score_batch_returns by blast
    from "1.IH"[OF True new "1.prems"] obtain out where
      "score_loop orc posts (start + batch_size) (scored @ new) = Inr out" by blast
    then show ?thesis using True new by (simp add: score_loop_step)
  qed
qed

lemma score_opportunities_returns:
  assumes "\<forall>p \<in> set posts. text_field ''snippet'' p"
    and "\<forall>b a v. orc b a = Parsed v \<longrightarrow> reply_ok v"
  shows "\<exists>out. score_opportunities orc posts = Inr out"
  using score_loop_returns[OF assms] by (simp add: score_opportunities_def)




lemma score_loop_all:
  assumes "\<And>b batch new. score_batch (orc b) batch = Inr new \<Longrightarrow> list_all P new"
  shows "score_loop orc posts start scored = Inr out \<Longrightarrow> list_all P scored \<Longrightarrow> list_all P out"
  using assms
proof (induction orc posts start scored rule: score_loop.induct)
  case (1 orc posts start scored)
  show ?case
  proof (cases "start < length posts")
    case False
    with "1.prems"(1,2) show ?thesis by (simp add: score_loop_done)
  next
    case True
    obtain new where new: "score_batch (orc (start div batch_size))
        (take batch_size (drop start posts)) = Inr new"
      using "1.prems"(1) True
      by (cases "score_batch (orc (start div batch_size)) (take batch_size (drop start posts))")
         (simp_all add: score_loop_step)
    have rest: "score_loop orc posts (start + batch_size) (scored @ new) = Inr out"
      using "1.prems"(1) True new by (simp add: score_loop_step)
    have "list_all P (scored @ new)"
      using "1.prems"(3)[OF new] "1.prems"(2) by simp
    from "1.IH"[OF True new rest this "1.prems"(3)] show ?thesis by simp
  qed
qed

lemma in_range_zero: "in_range (PInt 0)"
  by (simp add: in_range_def)

lemma info_fields_score:
  assumes "info_fields info = Inr fs" and "item_score_ok info"
  shows "\<exists>v. map_of (dict_update post fs) ''intent_score'' = Some v \<and> in_range v"
proof -
  from assms(1) obtain d where d: "info = PDict d" by (cases info) simp_all
  have fs: "map_of fs ''intent_score'' = Some (dict_get d ''intent_score'' (PInt 0))"
    and dist: "distinct (map fst fs)"
    using assms(1) d by auto
  have "in_range (dict_get d ''intent_score'' (PInt 0))"
    using assms(2) d by (simp add: dict_get_def in_range_zero split: option.splits)
  with dict_update_distinct[OF dist fs] show ?thesis by blast
qed

lemma merge_scores_in_range:
  assumes "\<And>k v. map_of sm k = Some v \<Longrightarrow> item_score_ok v"
  shows "merge_scores sm i batch = Inr out \<Longrightarrow>
           list_all (\<lambda>p. \<exists>v. map_of p ''intent_score'' = Some v \<and> in_range v) out"
proof (induction batch arbitrary: i out)
  case Nil
  then show ?case by simp
next
  case (Cons p ps)
  let ?info = "case map_of sm (PInt (int i)) of None \<Rightarrow> PDict [] | Some info \<Rightarrow> info"
  from Cons.prems obtain fs where fs: "info_fields ?info = Inr fs"
    by (cases "info_fields ?info") (simp_all del: info_fields.simps)
  from Cons.prems fs obtain rest where rest: "merge_scores sm (Suc i) ps = Inr rest"
    by (cases "merge_scores sm (Suc i) ps") (simp_all del: info_fields.simps)
  have out: "out = dict_update p fs # rest"
    using Cons.prems fs rest by (simp del: info_fields.simps)
  have "item_score_ok ?info"
    using assms by (cases "map_of sm (PInt (int i))") simp_all
  from info_fields_score[OF fs this] Cons.IH[OF rest] out show ?case by simp
qed

lemma py_iter_scores_ok:
  "reply_scores_ok v \<Longrightarrow> py_iter v = Inr items \<Longrightarrow> list_all item_score_ok items"
  by (cases v) (auto simp: list_all_iff)

lemma fallback_in_range:
  "\<exists>v. map_of (dict_update post fallback_fields) ''intent_score'' = Some v \<and> in_range v"
proof -
  have "map_of (dict_update post fallback_fields) ''intent_score'' = Some (PInt 0)"
    by (rule dict_update_distinct) (simp_all add: fallback_fields_def)
  then show ?thesis using in_range_zero by blast
qed

lemma score_batch_in_range:
  assumes "score_batch call batch = Inr out"
    and "\<forall>a v. call a = Parsed v \<longrightarrow> reply_scores_ok v"
  shows "list_all (\<lambda>p. \<exists>v. map_of p ''intent_score'' = Some v \<and> in_range v) out"
  using score_batch_cases[OF assms(1)]
proof (elim disjE exE conjE)
  assume "out = map (\<lambda>post. dict_update post fallback_fields) batch"
  then show ?thesis using fallback_in_range by (simp add: list_all_iff)
next
  fix items has_ids sm
  assume ne: "call_with_retries call [0..<3] \<noteq> PNone"
    and it: "py_iter (call_with_retries call [0..<3]) = Inr items"
    and sm: "(if has_ids then id_score_map items [] else Inr (enumerate_score_map items)) = Inr sm"
    and mg: "merge_scores sm 0 batch = Inr out"
  from call_with_retries_cases[of call "[0..<3]"] ne assms(2)
  have "reply_scores_ok (call_with_retries call [0..<3])" by auto
  from py_iter_scores_ok[OF this it] have items: "\<And>v. v \<in> set items \<Longrightarrow> item_score_ok v"
    by (simp add: list_all_iff)
  have "\<And>k v. map_of sm k = Some v \<Longrightarrow> item_score_ok v"
  proof -
    fix k v assume kv: "map_of sm k = Some v"
    show "item_score_ok v"
    proof (cases has_ids)
      case True
      with sm have "id_score_map items [] = Inr sm" by simp
      from id_score_map_values[OF this kv] items show ?thesis by auto
    next
      case False
      with sm have "sm = enumerate_score_map items" by simp
      with kv enumerate_score_map_values items show ?thesis by blast
    qed
  qed
  from merge_scores_in_range[OF this mg] show ?thesis .
qed

lemma score_opportunities_in_range:
  assumes "score_opportunities orc posts = Inr out"
    and "\<forall>b a v. orc b a = Parsed v \<longrightarrow> reply_scores_ok v"
  shows "list_all (\<lambda>p. \<exists>v. map_of p ''intent_score'' = Some v \<and> in_range v) out"
proof (cases "posts = []")
  case True
  with assms(1) show ?thesis by (simp add: score_opportunities_def)
next
  case False
  with assms(1) have loop: "score_loop orc posts 0 [] = Inr out"
    by (simp add: score_opportunities_def)
  show ?thesis
    by (rule score_loop_all[OF _ loop]) (use assms(2) score_batch_in_range in auto)
qed

lemma call_with_retries_first:
  assumes "\<forall>a' \<in> set as. failed (call a')" and "call a = Parsed v"
  shows "call_with_retries call (as @ a # bs) = v"
  using assms by (induction as) (auto split: attempt.splits)

lemma call_with_retries_three:
  assumes "a < 3" and "call a = Parsed v" and "\<forall>a' < a. failed (call a')"
  shows "call_with_retries call [0..<3] = v"
proof -
  have "[0..<3] = [0..<a] @ a # [Suc a..<3]"
    using assms(1) by (metis less_eq_nat.simps(1) upt_conv_Cons upt_add_eq_append le_add_diff_inverse less_imp_le_nat)
  moreover have "\<forall>a' \<in> set [0..<a]. failed (call a')" using assms(3) by simp
  ultimately show ?thesis
    using call_with_retries_first[of "[0..<a]" call a v "[Suc a..<3]"] assms(2) by simp
qed



section \<open>The claims about the intent scorer\<close>

lemma text_field_example: "text_field ''snippet'' example_post"
  by code_simp

lemma text_field_example2: "text_field ''snippet'' example_post2"
  by code_simp

text \<open>
  Claim C4, as the code has it. Whenever \<^verbatim>\<open>score_opportunities\<close> returns, its result has
  the length and the order of its input, every post carrying all five scoring fields and
  being unchanged elsewhere; and it does return for posts whose snippet is a string (or
  absent) and every oracle whose parsed replies are lists of objects with scalar ids (or
  null), whatever attempts fail. A parsed reply of another shape is not covered: the
  merge runs outside the \<^verbatim>\<open>try\<close> and raises on it.
\<close>

theorem C4_score_opportunities_shape:
  "(score_opportunities orc posts = Inr out \<longrightarrow>
      length out = length posts \<and> (\<forall>i < length posts. annotated (posts ! i) (out ! i)))
   \<and> ((\<forall>p \<in> set posts. text_field ''snippet'' p) \<and> (\<forall>b a v. orc b a = Parsed v \<longrightarrow> reply_ok v)
        \<longrightarrow> (\<exists>scored. score_opportunities orc posts = Inr scored))"
proof (intro conjI impI)
  assume "score_opportunities orc posts = Inr out"
  then have a: "list_all2 annotated posts out" by (rule score_opportunities_annotated)
  then show "length out = length posts" by (simp add: list_all2_lengthD)
  from a show "\<forall>i < length posts. annotated (posts ! i) (out ! i)"
    by (simp add: list_all2_conv_all_nth)
next
  assume "(\<forall>p \<in> set posts. text_field ''snippet'' p) \<and> (\<forall>b a v. orc b a = Parsed v \<longrightarrow> reply_ok v)"
  then show "\<exists>scored. score_opportunities orc posts = Inr scored"
    using score_opportunities_returns by blast
qed

theorem C4_score_opportunities_shape_witness:
  "\<exists>scored. score_opportunities (\<lambda>b a. Parsed (PList [example_item 90])) [example_post] = Inr scored
     \<and> length scored = 1 \<and> annotated example_post (scored ! 0)"
proof -
  have h1: "\<forall>p \<in> set [example_post]. text_field ''snippet'' p"
    by (simp add: text_field_example)
  have "reply_ok (PList [example_item 90])" by code_simp
  then have h2: "\<forall>b a v. (\<lambda>b a. Parsed (PList [example_item 90])) b a = Parsed v \<longrightarrow> reply_ok v"
    by simp
  from C4_score_opportunities_shape[of "\<lambda>b a. Parsed (PList [example_item 90])" "[example_post]"]
    h1 h2
  obtain scored where
    s: "score_opportunities (\<lambda>b a. Parsed (PList [example_item 90])) [example_post] = Inr scored"
    by blast
  from C4_score_opportunities_shape[of "\<lambda>b a. Parsed (PList [example_item 90])" "[example_post]" scored] s
  have "length scored = 1 \<and> annotated example_post (scored ! 0)" by simp
  with s show ?thesis by blast
qed

text \<open>
  For the claim C4 as stated (every behaviour of the oracle): a reply that wraps the items
  in an object, \<^verbatim>\<open>{"results": [...]}\<close>, parses, and the merge then raises
  \<^verbatim>\<open>AttributeError\<close> on the key it took for an item.
\<close>

theorem C4_wrapped_reply_raises:
  "score_opportunities (\<lambda>b a. Parsed wrapped_reply) [example_post] = Inl AttributeError"
  by code_simp







lemma merged_fields_keys: "map fst (merged_fields c) = scoring_fields"
  by (simp add: merged_fields_def merge_defaults_def scoring_fields_def Let_def)

lemma merged_fields_written:
  assumes "map_of (merged_fields c) f = Some v"
  shows "map_of (dict_update post (merged_fields c)) f = Some v"
proof (rule dict_update_distinct[OF _ assms])
  show "distinct (map fst (merged_fields c))"
    by (simp add: merged_fields_keys scoring_fields_def)
qed

lemma merged_fields_no_item: "merged_fields None = merge_defaults"
  by (simp add: merged_fields_def merge_defaults_def dict_get_def)

text \<open>
  Claim C6, as the code has it. When the first attempt that parses yields a list of
  objects, the batch is scored and post \<open>j\<close> is updated from the item the specification's
  correlation gives it: by id if every item carries one, by position otherwise. A post
  without a correlating item receives the defaults of the merge, for that post only, and
  these differ from the fallback of a failed batch in \<^verbatim>\<open>why_this_matters\<close>, which is
  the empty string; a post with an item receives the item's values, each missing one
  replaced by its default.
\<close>

theorem C6_correlation:
  assumes "\<forall>p \<in> set batch. text_field ''snippet'' p"
    and "a < 3" and "call a = Parsed (PList items)" and "\<forall>a' < a. failed (call a')"
    and "list_all item_ok items"
  shows "(\<exists>out. score_batch call batch = Inr out \<and> length out = length batch
            \<and> (\<forall>j < length batch.
                  out ! j = dict_update (batch ! j) (merged_fields (spec_correlated_item items j))))
     \<and> merged_fields None = merge_defaults
     \<and> (\<forall>d. merged_fields (Some (PDict d))
              = map (\<lambda>(f, dflt). (f, dict_get d f dflt)) merge_defaults)
     \<and> (\<forall>post c f v. map_of (merged_fields c) f = Some v
            \<longrightarrow> map_of (dict_update post (merged_fields c)) f = Some v)
     \<and> (\<forall>post. map_of (dict_update post (merged_fields None)) ''why_this_matters''
            = Some (PStr ''''))"
proof -
  have res: "call_with_retries call [0..<3] = PList items"
    using assms(2,3,4) by (rule call_with_retries_three)
  let ?out = "map (\<lambda>(j, post). dict_update post (merged_fields (spec_correlated_item items j)))
                  (zip [0..<length batch] batch)"
  have "score_batch call batch = Inr ?out"
    using assms(1) res assms(5) by (rule score_batch_exact)
  moreover have "length ?out = length batch" by simp
  moreover have "\<forall>j < length batch.
      ?out ! j = dict_update (batch ! j) (merged_fields (spec_correlated_item items j))"
    by simp
  ultimately have first: "\<exists>out. score_batch call batch = Inr out \<and> length out = length batch
            \<and> (\<forall>j < length batch.
                  out ! j = dict_update (batch ! j) (merged_fields (spec_correlated_item items j)))"
    by blast
  have third: "\<forall>d. merged_fields (Some (PDict d))
              = map (\<lambda>(f, dflt). (f, dict_get d f dflt)) merge_defaults"
    by (simp add: merged_fields_def)
  have fifth: "\<forall>post. map_of (dict_update post (merged_fields None)) ''why_this_matters''
            = Some (PStr '''')"
    by (intro allI merged_fields_written) (simp add: merged_fields_no_item merge_defaults_def)
  from first third fifth merged_fields_no_item merged_fields_written show ?thesis
    by blast
qed

theorem C6_correlation_witness:
  "\<exists>out. score_batch first_item_only [example_post, example_post2] = Inr out \<and> length out = 2
     \<and> out ! 0 = dict_update example_post (merged_fields (Some (example_item 90)))
     \<and> out ! 1 = dict_update example_post2 merge_defaults"
proof -
  have h1: "\<forall>p \<in> set [example_post, example_post2]. text_field ''snippet'' p"
    by (simp add: text_field_example text_field_example2)
  have h2: "first_item_only 0 = Parsed (PList [example_item 90])"
    by (simp add: first_item_only_def)
  have h3: "list_all item_ok [example_item 90]" by code_simp
  have c0: "spec_correlated_item [example_item 90] 0 = Some (example_item 90)" by code_simp
  have c1: "spec_correlated_item [example_item 90] 1 = None" by code_simp
  from C6_correlation[of "[example_post, example_post2]" 0 first_item_only "[example_item 90]", OF h1 _ h2 _ h3]
  obtain out where o: "score_batch first_item_only [example_post, example_post2] = Inr out"
    and l: "length out = 2"
    and n: "\<forall>j < 2. out ! j = dict_update ([example_post, example_post2] ! j)
                (merged_fields (spec_correlated_item [example_item 90] j))"
    and m: "merged_fields None = merge_defaults"
    by auto
  from n have "out ! 0 = dict_update example_post (merged_fields (Some (example_item 90)))"
    using c0 by (metis nth_Cons_0 zero_less_numeral)
  moreover from n have "out ! 1 = dict_update example_post2 merge_defaults"
    using c1 m by (metis nth_Cons_0 nth_Cons_Suc One_nat_def one_less_numeral_iff semiring_norm(76))
  ultimately show ?thesis using o l by blast
qed

text \<open>
  For the claim C6 as stated: of two posts and a reply with an item for the first only,
  the second gets an empty \<^verbatim>\<open>why_this_matters\<close>, not \<open>Scoring failed\<close>.
\<close>

theorem C6_uncorrelated_post_why_empty:
  "score_batch first_item_only [example_post, example_post2]
     = Inr [dict_update example_post (merged_fields (Some (example_item 90))),
            dict_update example_post2 merge_defaults]
   \<and> map_of (dict_update example_post2 merge_defaults) ''why_this_matters'' = Some (PStr '''')
   \<and> map_of (dict_update example_post2 fallback_fields) ''why_this_matters''
       = Some (PStr ''Scoring failed'')"
  by code_simp

text \<open>
  Claim C9, as the code has it. A post as either scraper builds it has none of the five
  scoring fields. After scoring, every post has an \<^verbatim>\<open>intent_score\<close>; it is the value
  the oracle supplied or 0, so it lies in the range 0 to 100 whenever every score in the
  oracle's parsed replies does. The code does not clamp or check the value.
\<close>

theorem C9_scores_as_supplied:
  "(\<forall>k \<in> set scoring_fields.
       map_of (submission_to_dict s) k = None \<and> map_of (web_post item) k = None)
   \<and> (score_opportunities orc posts = Inr out
        \<and> (\<forall>b a v. orc b a = Parsed v \<longrightarrow> reply_scores_ok v)
      \<longrightarrow> (\<forall>p \<in> set out. \<exists>v. map_of p ''intent_score'' = Some v \<and> in_range v))"
proof (intro conjI impI)
  show "\<forall>k \<in> set scoring_fields.
       map_of (submission_to_dict s) k = None \<and> map_of (web_post item) k = None"
    by (simp add: scoring_fields_def submission_to_dict_def web_post_def)
next
  assume "score_opportunities orc posts = Inr out
        \<and> (\<forall>b a v. orc b a = Parsed v \<longrightarrow> reply_scores_ok v)"
  then have "list_all (\<lambda>p. \<exists>v. map_of p ''intent_score'' = Some v \<and> in_range v) out"
    using score_opportunities_in_range by blast
  then show "\<forall>p \<in> set out. \<exists>v. map_of p ''intent_score'' = Some v \<and> in_range v"
    by (simp add: list_all_iff)
qed

theorem C9_scores_as_supplied_witness:
  "map_of example_post ''intent_score'' = None
   \<and> (\<exists>v. map_of (dict_update example_post (merged_fields (Some (example_item 90)))) ''intent_score''
            = Some v \<and> in_range v)"
proof -
  have s: "score_opportunities (\<lambda>b a. Parsed (PList [example_item 90])) [example_post]
        = Inr [dict_update example_post (merged_fields (Some (example_item 90)))]"
    by code_simp
  have "reply_scores_ok (PList [example_item 90])" by code_simp
  then have h: "\<forall>b a v. (\<lambda>b a. Parsed (PList [example_item 90])) b a = Parsed v \<longrightarrow> reply_scores_ok v"
    by simp
  have k: "''intent_score'' \<in> set scoring_fields" by (simp add: scoring_fields_def)
  from C9_scores_as_supplied[of _ "\<lparr>item_url = ''https://www.quora.com/q/1'',
     item_title = ''How to prepare for GRE'', item_snippet = ''I need help''\<rparr>"] k
  have a: "map_of example_post ''intent_score'' = None"
    unfolding example_post_def by blast
  from C9_scores_as_supplied[of _ _ "\<lambda>b a. Parsed (PList [example_item 90])" "[example_post]"
      "[dict_update example_post (merged_fields (Some (example_item 90)))]"] s h
  have "\<exists>v. map_of (dict_update example_post (merged_fields (Some (example_item 90)))) ''intent_score''
            = Some v \<and> in_range v"
    by simp
  with a show ?thesis by blast
qed

text \<open>
  For the claim C9 as stated (every possible oracle response): a reply with the score 150
  leaves the post with the score 150.
\<close>

theorem C9_score_150_kept:
  "score_opportunities out_of_range_oracle [example_post]
     = Inr [dict_update example_post (merged_fields (Some (example_item 150)))]
   \<and> map_of (dict_update example_post (merged_fields (Some (example_item 150)))) ''intent_score''
       = Some (PInt 150)
   \<and> \<not> in_range (PInt 150)"
  by code_simp

section \<open>Properties of the keyword refiner and of the final sort\<close>









lemma sort_and_trim_facts:
  assumes "0 \<le> m"
  shows "sort_and_trim m q = take (nat m) (sort_by_score_desc q)"
    and "length (sort_and_trim m q) = min (length q) (nat m)"
    and "mset (sort_by_score_desc q) = mset q"
    and "sorted_wrt (\<lambda>a b. score_key b \<le> score_key a) (sort_by_score_desc q)"
    and "filter (\<lambda>p. score_key p = r) (sort_by_score_desc q) = filter (\<lambda>p. score_key p = r) q"
proof -
  show "sort_and_trim m q = take (nat m) (sort_by_score_desc q)"
    using assms by (simp add: sort_and_trim_def py_prefix_def)
  then show "length (sort_and_trim m q) = min (length q) (nat m)"
    by (simp add: sort_by_score_desc_def)
  show "mset (sort_by_score_desc q) = mset q"
    by (simp add: sort_by_score_desc_def)
  have "sorted (map (\<lambda>p. - score_key p) (sort_by_score_desc q))"
    unfolding sort_by_score_desc_def by (rule sorted_sort_key)
  then show "sorted_wrt (\<lambda>a b. score_key b \<le> score_key a) (sort_by_score_desc q)"
    by (simp add: sorted_map)
  have "filter (\<lambda>p. - score_key p = - r) (sort_by_score_desc q) = filter (\<lambda>p. - score_key p = - r) q"
    unfolding sort_by_score_desc_def by (rule sort_key_stable)
  then show "filter (\<lambda>p. score_key p = r) (sort_by_score_desc q) = filter (\<lambda>p. score_key p = r) q"
    by simp
qed

section \<open>Properties of the search-refine loop\<close>

lemma refine_step_cases:
  assumes "refine_step cfg w i st = (r, st')"
  shows "(\<not> i < max_iterations cfg \<and> r = None \<and> st' = st)
       \<or> (i < max_iterations cfg
            \<and> ((\<exists>e. r = Some (Raised e i) \<and> st' = st)
               \<or> (r = Some (NoNewKeywords i) \<and> st' = st)
               \<or> (\<exists>kws. kws \<noteq> [] \<and> r = None \<and> st' = st\<lparr>current_keywords := kws\<rparr>)))"
  using assms by (auto simp: refine_step_def split: if_splits sum.splits)

lemma score_step_cases:
  assumes "score_step cfg w i new st = (r, st')"
  shows "(\<exists>e. r = Some (Raised e i) \<and> st' = st\<lparr>scoring_passes := Suc (scoring_passes st)\<rparr>)
       \<or> (\<exists>scored nq.
             score_opportunities (scoring_oracle w i) new = Inr scored
           \<and> qualified_posts (cfg_min_intent_score cfg) scored = Inr nq
           \<and> ((cfg_max_results cfg \<le> int (length (all_qualified st @ nq))
                 \<and> r = Some (TargetReached i)
                 \<and> st' = st\<lparr>scoring_passes := Suc (scoring_passes st),
                             all_qualified := all_qualified st @ nq\<rparr>)
              \<or> (\<not> cfg_max_results cfg \<le> int (length (all_qualified st @ nq))
                 \<and> refine_step cfg w i (st\<lparr>scoring_passes := Suc (scoring_passes st),
                             all_qualified := all_qualified st @ nq\<rparr>) = (r, st'))))"
proof (cases "score_opportunities (scoring_oracle w i) new")
  case (Inl e)
  with assms show ?thesis by (auto simp: score_step_def Let_def)
next
  case (Inr scored)
  show ?thesis
  proof (cases "qualified_posts (cfg_min_intent_score cfg) scored")
    case (Inl e)
    with assms \<open>score_opportunities (scoring_oracle w i) new = Inr scored\<close>
    show ?thesis by (auto simp: score_step_def Let_def)
  next
    case (Inr nq)
    with assms \<open>score_opportunities (scoring_oracle w i) new = Inr scored\<close>
    show ?thesis by (auto simp: score_step_def Let_def split: if_splits)
  qed
qed

lemma iteration_body_cases:
  assumes "iteration_body cfg w i st = (r, st')"
  shows "\<exists>st1. iterations_run st1 = Suc (iterations_run st)
             \<and> scoring_passes st1 = scoring_passes st
             \<and> all_qualified st1 = all_qualified st
             \<and> ((\<exists>e. r = Some (Raised e i) \<and> st' = st1)
                \<or> (r = Some (NoNewPosts i) \<and> st' = st1)
                \<or> (\<exists>new. new \<noteq> [] \<and> score_step cfg w i new st1 = (r, st')))"
proof -
  let ?posts = "gather cfg w i (current_keywords st)"
  let ?st = "st\<lparr>iterations_run := Suc (iterations_run st),
                 total_raw := total_raw st + length ?posts\<rparr>"
  show ?thesis
  proof (cases "unseen_posts (all_seen_urls ?st) ?posts")
    case (Inl e)
    with assms have "r = Some (Raised e i) \<and> st' = ?st"
      by (auto simp: iteration_body_def Let_def)
    then show ?thesis by (intro exI[of _ ?st]) simp
  next
    case (Inr new)
    show ?thesis
    proof (cases "add_urls (all_seen_urls ?st) new")
      case (Inl e)
      with assms Inr have "r = Some (Raised e i) \<and> st' = ?st"
        by (auto simp: iteration_body_def Let_def)
      then show ?thesis by (intro exI[of _ ?st]) simp
    next
      case (Inr seen)
      let ?st1 = "?st\<lparr>all_seen_urls := seen\<rparr>"
      from assms \<open>unseen_posts (all_seen_urls ?st) ?posts = Inr new\<close> Inr
      have "(new = [] \<and> r = Some (NoNewPosts i) \<and> st' = ?st1)
          \<or> (new \<noteq> [] \<and> score_step cfg w i new ?st1 = (r, st'))"
        by (auto simp: iteration_body_def Let_def split: if_splits)
      then show ?thesis by (intro exI[of _ ?st1]) auto
    qed
  qed
qed

lemma qualified_posts_numeric:
  "qualified_posts m scored = Inr nq \<Longrightarrow> \<forall>p \<in> set scored. map_of p ''intent_score'' \<noteq> None \<Longrightarrow>
     \<forall>p \<in> set nq. numeric_score p"
proof (induction scored arbitrary: nq)
  case Nil
  then show ?case by simp
next
  case (Cons p ps)
  from Cons.prems(1) obtain b where b: "py_ge (dict_get p ''intent_score'' (PInt 0)) m = Inr b"
    by (cases "py_ge (dict_get p ''intent_score'' (PInt 0)) m") simp_all
  from Cons.prems(1) b obtain rest where rest: "qualified_posts m ps = Inr rest"
    by (cases "qualified_posts m ps") simp_all
  have nq: "nq = (if b then p # rest else rest)"
    using Cons.prems(1) b rest by simp
  have "numeric_score p"
    using b Cons.prems(2)
    by (auto simp: numeric_score_def py_ge_def dict_get_def split: option.splits)
  moreover have "\<forall>p \<in> set rest. numeric_score p"
    using Cons.IH[OF rest] Cons.prems(2) by simp
  ultimately show ?case using nq by simp
qed

lemma scored_have_score:
  assumes "score_opportunities orc new = Inr scored"
  shows "\<forall>p \<in> set scored. map_of p ''intent_score'' \<noteq> None"
proof -
  from score_opportunities_annotated[OF assms]
  have "\<forall>j < length scored. annotated (new ! j) (scored ! j)"
    by (simp add: list_all2_conv_all_nth)
  then have "\<forall>j < length scored. map_of (scored ! j) ''intent_score'' \<noteq> None"
    by (simp add: annotated_def scoring_fields_def)
  then show ?thesis by (metis in_set_conv_nth)
qed

lemma refine_step_facts:
  assumes "refine_step cfg w i st = (r, st')"
  shows "iterations_run st' = iterations_run st \<and> scoring_passes st' = scoring_passes st
       \<and> all_qualified st' = all_qualified st
       \<and> (r = None \<or> (\<exists>s. r = Some s \<and> stopped_at s = Some i \<and> s \<noteq> NoNewPosts i
                           \<and> s \<noteq> TargetReached i \<and> i < max_iterations cfg))"
  using refine_step_cases[OF assms] by auto

lemma score_step_facts:
  assumes "score_step cfg w i new st = (r, st')"
  shows "iterations_run st' = iterations_run st \<and> scoring_passes st' = Suc (scoring_passes st)
       \<and> (r = None \<or> (\<exists>s. r = Some s \<and> stopped_at s = Some i \<and> s \<noteq> NoNewPosts i
                           \<and> (s = NoNewKeywords i \<longrightarrow> i < max_iterations cfg)))
       \<and> ((\<forall>p \<in> set (all_qualified st). numeric_score p)
            \<longrightarrow> (\<forall>p \<in> set (all_qualified st'). numeric_score p))"
  using score_step_cases[OF assms]
proof (elim disjE exE conjE)
  fix e assume "r = Some (Raised e i)" "st' = st\<lparr>scoring_passes := Suc (scoring_passes st)\<rparr>"
  then show ?thesis by simp
next
  fix scored nq
  assume so: "score_opportunities (scoring_oracle w i) new = Inr scored"
    and q: "qualified_posts (cfg_min_intent_score cfg) scored = Inr nq"
    and "r = Some (TargetReached i)"
    and "st' = st\<lparr>scoring_passes := Suc (scoring_passes st),
                             all_qualified := all_qualified st @ nq\<rparr>"
  then show ?thesis
    using qualified_posts_numeric[OF q scored_have_score[OF so]] by auto
next
  fix scored nq
  assume so: "score_opportunities (scoring_oracle w i) new = Inr scored"
    and q: "qualified_posts (cfg_min_intent_score cfg) scored = Inr nq"
    and rs: "refine_step cfg w i (st\<lparr>scoring_passes := Suc (scoring_passes st),
                             all_qualified := all_qualified st @ nq\<rparr>) = (r, st')"
  from refine_step_facts[OF rs] qualified_posts_numeric[OF q scored_have_score[OF so]]
  show ?thesis by auto
qed

lemma iteration_body_facts:
  assumes "iteration_body cfg w i st = (r, st')"
  shows "iterations_run st' = Suc (iterations_run st)
       \<and> scoring_passes st \<le> scoring_passes st' \<and> scoring_passes st' \<le> Suc (scoring_passes st)
       \<and> (r = None \<or> (\<exists>s. r = Some s \<and> stopped_at s = Some i
                           \<and> (s = NoNewKeywords i \<longrightarrow> i < max_iterations cfg)))
       \<and> ((\<forall>p \<in> set (all_qualified st). numeric_score p)
            \<longrightarrow> (\<forall>p \<in> set (all_qualified st'). numeric_score p))"
proof -
  from iteration_body_cases[OF assms] obtain st1 where
    st1: "iterations_run st1 = Suc (iterations_run st)" "scoring_passes st1 = scoring_passes st"
      "all_qualified st1 = all_qualified st"
    and alt: "(\<exists>e. r = Some (Raised e i) \<and> st' = st1)
                \<or> (r = Some (NoNewPosts i) \<and> st' = st1)
                \<or> (\<exists>new. new \<noteq> [] \<and> score_step cfg w i new st1 = (r, st'))"
    by blast
  from alt show ?thesis
  proof (elim disjE exE conjE)
    fix new assume "score_step cfg w i new st1 = (r, st')"
    from score_step_facts[OF this] st1 show ?thesis by auto
  qed (use st1 in auto)
qed

lemma run_iterations_facts:
  "run_iterations cfg w its st = (s, st') \<Longrightarrow>
     iterations_run st \<le> iterations_run st'
   \<and> scoring_passes st \<le> scoring_passes st'
   \<and> scoring_passes st' - scoring_passes st \<le> iterations_run st' - iterations_run st
   \<and> (case stopped_at s of
         None \<Rightarrow> s = Completed \<and> iterations_run st' = iterations_run st + length its
       | Some i \<Rightarrow> \<exists>k < length its. i = its ! k \<and> iterations_run st' = iterations_run st + Suc k)
   \<and> (\<forall>i. s = NoNewKeywords i \<longrightarrow> i < max_iterations cfg)
   \<and> ((\<forall>p \<in> set (all_qualified st). numeric_score p)
        \<longrightarrow> (\<forall>p \<in> set (all_qualified st'). numeric_score p))"
proof (induction its arbitrary: st)
  case Nil
  then show ?case by simp
next
  case (Cons i its)
  obtain r st1 where body: "iteration_body cfg w i st = (r, st1)"
    by (cases "iteration_body cfg w i st")
  note f = iteration_body_facts[OF body]
  show ?case
  proof (cases r)
    case None
    with Cons.prems body have run: "run_iterations cfg w its st1 = (s, st')" by simp
    from Cons.IH[OF run] f show ?thesis
      by (auto split: option.splits)
  next
    case (Some s1)
    with Cons.prems body have "s = s1" "st' = st1" by simp_all
    with f Some show ?thesis by auto
  qed
qed

lemma refinement_loop_facts:
  assumes "refinement_loop cfg w = (s, st)"
  shows "int (iterations_run st) \<le> max 0 (max_iterations cfg)"
    and "scoring_passes st \<le> iterations_run st"
    and "stopped_at s = Some i \<Longrightarrow> int (iterations_run st) = i \<and> 1 \<le> i \<and> i \<le> max_iterations cfg"
    and "s = Completed \<Longrightarrow> int (iterations_run st) = max 0 (max_iterations cfg)"
    and "s = NoNewKeywords i \<Longrightarrow> i < max_iterations cfg"
    and "\<forall>p \<in> set (all_qualified st). numeric_score p"
proof -
  let ?m = "max_iterations cfg"
  from assms have run: "run_iterations cfg w [1..?m] (initial_state cfg) = (s, st)"
    by (simp add: refinement_loop_def)
  note f = run_iterations_facts[OF run]
  have init: "iterations_run (initial_state cfg) = 0" "scoring_passes (initial_state cfg) = 0"
    "all_qualified (initial_state cfg) = []"
    by (simp_all add: initial_state_def)
  have len: "length [1..?m] = nat ?m" by simp
  show st: "stopped_at s = Some i \<Longrightarrow> int (iterations_run st) = i \<and> 1 \<le> i \<and> i \<le> ?m" for i
  proof -
    assume "stopped_at s = Some i"
    with f init obtain k where k: "k < nat ?m" "i = [1..?m] ! k" "iterations_run st = Suc k"
      by auto
    then have "i = 1 + int k" by simp
    with k show ?thesis by simp
  qed
  show comp: "s = Completed \<Longrightarrow> int (iterations_run st) = max 0 ?m"
    using f init by auto
  show "int (iterations_run st) \<le> max 0 ?m"
  proof (cases "stopped_at s")
    case None
    then have "s = Completed" by (cases s) simp_all
    with comp show ?thesis by simp
  next
    case (Some j)
    from st[OF Some] show ?thesis by simp
  qed
  show "scoring_passes st \<le> iterations_run st"
    using f init by simp
  show "s = NoNewKeywords i \<Longrightarrow> i < ?m"
    using f by simp
  show "\<forall>p \<in> set (all_qualified st). numeric_score p"
    using f init by simp
qed

lemma no_new_posts_first:
  assumes "unseen_posts (all_seen_urls st0) (gather cfg w i (current_keywords st0)) = Inr []"
  shows "fst (iteration_body cfg w i st0) = Some (NoNewPosts i)
       \<and> scoring_passes (snd (iteration_body cfg w i st0)) = scoring_passes st0"
  using assms by (simp add: iteration_body_def Let_def)

lemma target_before_refinement:
  assumes "score_opportunities (scoring_oracle w i) new = Inr scored"
    and "qualified_posts (cfg_min_intent_score cfg) scored = Inr nq"
    and "cfg_max_results cfg \<le> int (length (all_qualified st0 @ nq))"
  shows "fst (score_step cfg w i new st0) = Some (TargetReached i)"
  using assms by (simp add: score_step_def Let_def)

lemma last_iteration_before_refiner:
  "\<not> i < max_iterations cfg \<Longrightarrow> refine_step cfg w i st0 = (None, st0)"
  by (simp add: refine_step_def)

lemma refiner_empty_stops:
  assumes "i < max_iterations cfg"
    and "generate_refined_keywords (str_lower w) (str_chars w) (cfg_keywords cfg)
             (sort_by_score_desc (all_qualified st0))
           (refinement_oracle w i) = Inr []"
  shows "refine_step cfg w i st0 = (Some (NoNewKeywords i), st0)"
  using assms by (simp add: refine_step_def)

text \<open>
  Claim C2, as the code has it. Whatever the configuration and the collaborators do, the
  loop body is entered at most \<open>max_iterations\<close> times (not at all for a bound below 1),
  and \<^verbatim>\<open>score_opportunities\<close> is called at most once per entry. Fewer iterations are run
  iff the loop is left in an iteration before the last allowed one, by one of the three
  \<^verbatim>\<open>break\<close>s or by an exception that escapes the body; where no exception escapes, iff
  one of the three \<^verbatim>\<open>break\<close>s is taken early. A \<^verbatim>\<open>break\<close> or exception in iteration
  \<open>i\<close> means that exactly \<open>i\<close> iterations were run, and the loop that completes has run
  all of them. The tests come in the fixed order: no new posts ends the iteration before
  any scoring; the target test follows scoring whatever the iteration and the refiner;
  in the last allowed iteration the refiner is not consulted; before it, an empty
  refiner result ends the loop.
\<close>

theorem C2_loop_bound_and_order:
  "(refinement_loop cfg w = (s, st) \<longrightarrow>
        int (iterations_run st) \<le> max 0 (max_iterations cfg)
      \<and> scoring_passes st \<le> iterations_run st
      \<and> (int (iterations_run st) < max_iterations cfg)
          = (\<exists>i. stopped_at s = Some i \<and> i < max_iterations cfg)
      \<and> (\<forall>i. stopped_at s = Some i
            \<longrightarrow> int (iterations_run st) = i \<and> 1 \<le> i \<and> i \<le> max_iterations cfg)
      \<and> (s = Completed \<longrightarrow> int (iterations_run st) = max 0 (max_iterations cfg))
      \<and> (\<forall>i. s = NoNewKeywords i \<longrightarrow> i < max_iterations cfg)
      \<and> ((\<forall>e i. s \<noteq> Raised e i)
            \<longrightarrow> (int (iterations_run st) < max_iterations cfg)
                = (\<exists>i. i < max_iterations cfg
                     \<and> (s = NoNewPosts i \<or> s = TargetReached i \<or> s = NoNewKeywords i))))
   \<and> (unseen_posts (all_seen_urls st0) (gather cfg w j (current_keywords st0)) = Inr []
        \<longrightarrow> fst (iteration_body cfg w j st0) = Some (NoNewPosts j)
          \<and> scoring_passes (snd (iteration_body cfg w j st0)) = scoring_passes st0)
   \<and> (score_opportunities (scoring_oracle w j) new = Inr scored
        \<and> qualified_posts (cfg_min_intent_score cfg) scored = Inr nq
        \<and> cfg_max_results cfg \<le> int (length (all_qualified st0 @ nq))
        \<longrightarrow> fst (score_step cfg w j new st0) = Some (TargetReached j))
   \<and> (\<not> j < max_iterations cfg \<longrightarrow> refine_step cfg w j st0 = (None, st0))
   \<and> (j < max_iterations cfg
        \<and> generate_refined_keywords (str_lower w) (str_chars w) (cfg_keywords cfg)
             (sort_by_score_desc (all_qualified st0))
             (refinement_oracle w j) = Inr []
        \<longrightarrow> refine_step cfg w j st0 = (Some (NoNewKeywords j), st0))"
proof (intro conjI impI)
  assume loop: "refinement_loop cfg w = (s, st)"
  note f = refinement_loop_facts[OF loop]
  show "int (iterations_run st) \<le> max 0 (max_iterations cfg)" by (rule f)
  show "scoring_passes st \<le> iterations_run st" by (rule f)
  show at: "\<forall>i. stopped_at s = Some i
            \<longrightarrow> int (iterations_run st) = i \<and> 1 \<le> i \<and> i \<le> max_iterations cfg"
    using f(3) by blast
  show "\<forall>i. s = NoNewKeywords i \<longrightarrow> i < max_iterations cfg"
    using f(5) by blast
  show iff: "(int (iterations_run st) < max_iterations cfg)
          = (\<exists>i. stopped_at s = Some i \<and> i < max_iterations cfg)"
  proof (cases "stopped_at s")
    case None
    then have "s = Completed" by (cases s) simp_all
    from f(4)[OF this] None show ?thesis by simp
  next
    case (Some i)
    with at show ?thesis by auto
  qed
  {
    assume nr: "\<forall>e i. s \<noteq> Raised e i"
    have "(\<exists>i. stopped_at s = Some i \<and> i < max_iterations cfg)
        = (\<exists>i. i < max_iterations cfg
                     \<and> (s = NoNewPosts i \<or> s = TargetReached i \<or> s = NoNewKeywords i))"
      using nr by (cases s) auto
    with iff show "(int (iterations_run st) < max_iterations cfg)
                = (\<exists>i. i < max_iterations cfg
                     \<and> (s = NoNewPosts i \<or> s = TargetReached i \<or> s = NoNewKeywords i))"
      by simp
  }
  {
    assume "s = Completed"
    then show "int (iterations_run st) = max 0 (max_iterations cfg)" by (rule f)
  }
next
  assume "unseen_posts (all_seen_urls st0) (gather cfg w j (current_keywords st0)) = Inr []"
  from no_new_posts_first[OF this]
  show "fst (iteration_body cfg w j st0) = Some (NoNewPosts j)"
    and "scoring_passes (snd (iteration_body cfg w j st0)) = scoring_passes st0"
    by simp_all
next
  assume "score_opportunities (scoring_oracle w j) new = Inr scored
        \<and> qualified_posts (cfg_min_intent_score cfg) scored = Inr nq
        \<and> cfg_max_results cfg \<le> int (length (all_qualified st0 @ nq))"
  then show "fst (score_step cfg w j new st0) = Some (TargetReached j)"
    using target_before_refinement by blast
next
  assume "\<not> j < max_iterations cfg"
  then show "refine_step cfg w j st0 = (None, st0)" by (rule last_iteration_before_refiner)
next
  assume "j < max_iterations cfg
        \<and> generate_refined_keywords (str_lower w) (str_chars w) (cfg_keywords cfg)
             (sort_by_score_desc (all_qualified st0))
             (refinement_oracle w j) = Inr []"
  then show "refine_step cfg w j st0 = (Some (NoNewKeywords j), st0)"
    using refiner_empty_stops by blast
qed

theorem C2_loop_bound_and_order_witness:
  "fst (refinement_loop sample_config sample_world) = NoNewPosts 2
   \<and> max_iterations sample_config = 3
   \<and> iterations_run (snd (refinement_loop sample_config sample_world)) = 2
   \<and> scoring_passes (snd (refinement_loop sample_config sample_world)) \<le> 2"
proof -
  have e: "fst (refinement_loop sample_config sample_world) = NoNewPosts 2" by code_simp
  have m: "max_iterations sample_config = 3" by code_simp
  have pr: "refinement_loop sample_config sample_world
      = (NoNewPosts 2, snd (refinement_loop sample_config sample_world))"
    using e by (metis prod.collapse)
  from C2_loop_bound_and_order[of sample_config sample_world "NoNewPosts 2"
      "snd (refinement_loop sample_config sample_world)", THEN conjunct1, THEN mp, OF pr]
  have "int (iterations_run (snd (refinement_loop sample_config sample_world))) = 2
      \<and> scoring_passes (snd (refinement_loop sample_config sample_world))
          \<le> iterations_run (snd (refinement_loop sample_config sample_world))"
    by simp
  with e m show ?thesis by simp
qed

text \<open>
  For the claim C2 as stated (every behaviour of the collaborators): a scoring oracle that
  answers with the score \<open>"high"\<close> makes the comparison with the threshold raise
  \<^verbatim>\<open>TypeError\<close> in iteration 1 of 3; fewer iterations are run and none of the four
  termination conditions has fired.
\<close>

theorem C2_exception_ends_loop_early:
  "fst (refinement_loop sample_config non_numeric_world) = Raised TypeError 1
   \<and> iterations_run (snd (refinement_loop sample_config non_numeric_world)) = 1
   \<and> max_iterations sample_config = 3"
  by code_simp

lemma iteration_body_appends:
  assumes "iteration_body cfg w i st = (r, st')"
  shows "prefix (all_qualified st) (all_qualified st')"
proof -
  from iteration_body_cases[OF assms] obtain st1 where
    st1: "all_qualified st1 = all_qualified st"
    and alt: "(\<exists>e. r = Some (Raised e i) \<and> st' = st1)
                \<or> (r = Some (NoNewPosts i) \<and> st' = st1)
                \<or> (\<exists>new. new \<noteq> [] \<and> score_step cfg w i new st1 = (r, st'))"
    by blast
  from alt show ?thesis
  proof (elim disjE exE conjE)
    fix new assume "score_step cfg w i new st1 = (r, st')"
    from score_step_cases[OF this] show ?thesis
    proof (elim disjE exE conjE)
      fix scored nq
      assume "refine_step cfg w i (st1\<lparr>scoring_passes := Suc (scoring_passes st1),
                             all_qualified := all_qualified st1 @ nq\<rparr>) = (r, st')"
      from refine_step_facts[OF this] st1 show ?thesis by simp
    qed (use st1 in simp_all)
  qed (use st1 in simp_all)
qed

lemma numeric_score_key:
  "numeric_score p \<Longrightarrow> \<exists>v. map_of p ''intent_score'' = Some v \<and> num_of v = Some (score_key p)"
  by (auto simp: numeric_score_def score_key_def split: option.splits)

lemma run_top_Inr:
  assumes "run_top cfg w = Inr tops"
  shows "\<exists>s st. refinement_loop cfg w = (s, st)
           \<and> tops = sort_and_trim (cfg_max_results cfg) (all_qualified st)"
proof -
  obtain s st where l: "refinement_loop cfg w = (s, st)" by (cases "refinement_loop cfg w")
  with assms have "tops = sort_and_trim (cfg_max_results cfg) (all_qualified st)"
    by (cases s) (simp_all add: run_top_def)
  with l show ?thesis by blast
qed

text \<open>
  Claim C3. When the loop has ended without an exception and the maximum result count is
  not negative, the list \<open>top\<close> is the accumulated qualified list sorted by score,
  descending and stably (posts of one score keep their order in the qualified list, a
  permutation of which the sorted list is), cut to \<open>max_results\<close>; its length is the
  minimum of the number of qualified posts and \<open>max_results\<close>. The sort key is the
  score the post carries, a number for every qualified post. The qualified list is in
  order of discovery: an iteration only appends to it.
\<close>

theorem C3_final_sort_and_trim:
  "(run_top cfg w = Inr tops \<and> 0 \<le> cfg_max_results cfg \<longrightarrow>
      (\<exists>s st. refinement_loop cfg w = (s, st)
         \<and> tops = take (nat (cfg_max_results cfg)) (sort_by_score_desc (all_qualified st))
         \<and> length tops = min (length (all_qualified st)) (nat (cfg_max_results cfg))
         \<and> mset (sort_by_score_desc (all_qualified st)) = mset (all_qualified st)
         \<and> sorted_wrt (\<lambda>a b. score_key b \<le> score_key a) (sort_by_score_desc (all_qualified st))
         \<and> sorted_wrt (\<lambda>a b. score_key b \<le> score_key a) tops
         \<and> (\<forall>r. filter (\<lambda>p. score_key p = r) (sort_by_score_desc (all_qualified st))
                 = filter (\<lambda>p. score_key p = r) (all_qualified st))
         \<and> (\<forall>p \<in> set (all_qualified st).
               \<exists>v. map_of p ''intent_score'' = Some v \<and> num_of v = Some (score_key p))))
   \<and> (iteration_body cfg w i st0 = (r0, st1) \<longrightarrow> prefix (all_qualified st0) (all_qualified st1))"
proof (intro conjI impI)
  assume a: "run_top cfg w = Inr tops \<and> 0 \<le> cfg_max_results cfg"
  then obtain s st where l: "refinement_loop cfg w = (s, st)"
    and t: "tops = sort_and_trim (cfg_max_results cfg) (all_qualified st)"
    using run_top_Inr by blast
  from a have m: "0 \<le> cfg_max_results cfg" by simp
  note f = sort_and_trim_facts[OF m, where q = "all_qualified st"]
  have t': "tops = take (nat (cfg_max_results cfg)) (sort_by_score_desc (all_qualified st))"
    using t f(1) by simp
  have "sorted_wrt (\<lambda>a b. score_key b \<le> score_key a) tops"
    unfolding t' using f(4) by (rule sorted_wrt_take)
  moreover have "length tops = min (length (all_qualified st)) (nat (cfg_max_results cfg))"
    using t f(2) by simp
  moreover have "\<forall>p \<in> set (all_qualified st).
               \<exists>v. map_of p ''intent_score'' = Some v \<and> num_of v = Some (score_key p)"
    using refinement_loop_facts(6)[OF l] numeric_score_key by blast
  ultimately show "\<exists>s st. refinement_loop cfg w = (s, st)
         \<and> tops = take (nat (cfg_max_results cfg)) (sort_by_score_desc (all_qualified st))
         \<and> length tops = min (length (all_qualified st)) (nat (cfg_max_results cfg))
         \<and> mset (sort_by_score_desc (all_qualified st)) = mset (all_qualified st)
         \<and> sorted_wrt (\<lambda>a b. score_key b \<le> score_key a) (sort_by_score_desc (all_qualified st))
         \<and> sorted_wrt (\<lambda>a b. score_key b \<le> score_key a) tops
         \<and> (\<forall>r. filter (\<lambda>p. score_key p = r) (sort_by_score_desc (all_qualified st))
                 = filter (\<lambda>p. score_key p = r) (all_qualified st))
         \<and> (\<forall>p \<in> set (all_qualified st).
               \<exists>v. map_of p ''intent_score'' = Some v \<and> num_of v = Some (score_key p))"
    using l t' f(3,4,5) by blast
next
  assume "iteration_body cfg w i st0 = (r0, st1)"
  then show "prefix (all_qualified st0) (all_qualified st1)" by (rule iteration_body_appends)
qed

theorem C3_final_sort_and_trim_witness:
  "run_top sample_config sample_world
     = Inr [scored_as (web_post sample_item2) 1 95, scored_as example_post 0 75]
   \<and> 0 \<le> cfg_max_results sample_config
   \<and> score_key (scored_as example_post 0 75) \<le> score_key (scored_as (web_post sample_item2) 1 95)"
proof -
  have e: "run_top sample_config sample_world
     = Inr [scored_as (web_post sample_item2) 1 95, scored_as example_post 0 75]"
    by code_simp
  have m: "0 \<le> cfg_max_results sample_config" by code_simp
  from C3_final_sort_and_trim[of sample_config sample_world
      "[scored_as (web_post sample_item2) 1 95, scored_as example_post 0 75]"] e m
  have "sorted_wrt (\<lambda>a b. score_key b \<le> score_key a)
          [scored_as (web_post sample_item2) 1 95, scored_as example_post 0 75]"
    by blast
  with e m show ?thesis by simp
qed

lemma unseen_posts_fresh:
  "unseen_posts seen posts = Inr new \<Longrightarrow> p \<in> set new \<Longrightarrow> url_key p = Inr u \<Longrightarrow> u \<notin> seen"
proof (induction posts arbitrary: new)
  case Nil
  then show ?case by simp
next
  case (Cons q qs)
  from Cons.prems(1) obtain uq where uq: "url_key q = Inr uq"
    by (cases "url_key q") simp_all
  from Cons.prems(1) uq obtain rest where rest: "unseen_posts seen qs = Inr rest"
    by (cases "unseen_posts seen qs") simp_all
  have new: "new = (if uq \<notin> seen then q # rest else rest)"
    using Cons.prems(1) uq rest by simp
  show ?case
  proof (cases "p \<in> set rest")
    case True
    from Cons.IH[OF rest True Cons.prems(3)] show ?thesis .
  next
    case False
    with new Cons.prems(2) have "p = q" "uq \<notin> seen" by (auto split: if_splits)
    with uq Cons.prems(3) show ?thesis by simp
  qed
qed

lemma add_urls_records:
  "add_urls seen new = Inr seen' \<Longrightarrow>
     seen \<subseteq> seen' \<and> (\<forall>p \<in> set new. \<forall>u. url_key p = Inr u \<longrightarrow> u \<in> seen')"
proof (induction new arbitrary: seen)
  case Nil
  then show ?case by simp
next
  case (Cons q qs)
  from Cons.prems obtain uq where uq: "url_key q = Inr uq"
    by (cases "url_key q") simp_all
  with Cons.prems have "add_urls (insert uq seen) qs = Inr seen'" by simp
  from Cons.IH[OF this] uq show ?case by auto
qed

text \<open>
  Claim C1, evaluated where the code departs from it. The Reddit scraper and the web
  scraper return the same URL in one iteration; line 151 tests both posts against the
  set as it was before the iteration, so both are admitted, and both reach the final
  list. Each scraper, by contrast, records a URL as soon as it has admitted a post, and
  drops the second occurrence.
\<close>

theorem C1_same_url_twice_in_one_batch:
  "gather dup_config dup_world 1 [''GRE prep'']
     = [submission_to_dict dup_submission, web_post dup_item]
   \<and> url_key (submission_to_dict dup_submission) = Inr (PStr ''https://reddit.com/r/GRE/comments/1/'')
   \<and> url_key (web_post dup_item) = Inr (PStr ''https://reddit.com/r/GRE/comments/1/'')
   \<and> unseen_posts {} [submission_to_dict dup_submission, web_post dup_item]
       = Inr [submission_to_dict dup_submission, web_post dup_item]
   \<and> run_top dup_config dup_world
       = Inr [scored_as (web_post dup_item) 1 95, scored_as (submission_to_dict dup_submission) 0 75]
   \<and> web_collect {} [dup_item, dup_item] = [web_post dup_item]"
  by code_simp

end
